theory Spec2Isabelle
  imports Main "HOL-Library.Sublist" "HOL-Library.Multiset"
begin

section \<open>JavaScript strings\<close>

text \<open>
  A JavaScript string is a sequence of UTF-16 code units, and \<open>length\<close>, \<open>indexOf\<close>,
  \<open>substring\<close>, \<open>split\<close> and the regular expressions of the sources count code units.
  The model keeps the code units below 256, one \<^typ>\<open>char\<close> each, so a \<^typ>\<open>string\<close>
  is a JavaScript string of such units and positions are list positions.
\<close>

definition LF :: char where
  "LF = CHR 0x0A"

definition DQUOTE :: char where
  "DQUOTE = CHR 0x22"

definition BACKSLASH :: char where
  "BACKSLASH = CHR 0x5C"

definition isSpace :: "char \<Rightarrow> bool" where
  \<comment> \<open>What \<open>String.prototype.trim\<close> strips: tab, LF, VT, FF, CR, space, NBSP.\<close>
  "isSpace c = (c = CHR 0x09 \<or> c = CHR 0x0A \<or> c = CHR 0x0B \<or> c = CHR 0x0C
                \<or> c = CHR 0x0D \<or> c = CHR 0x20 \<or> c = CHR 0xA0)"

definition trim :: "string \<Rightarrow> string" where
  "trim s = rev (dropWhile isSpace (rev (dropWhile isSpace s)))"

definition substring :: "string \<Rightarrow> nat \<Rightarrow> nat \<Rightarrow> string" where
  \<comment> \<open>\<open>s.substring(a, b)\<close>: both ends are clamped to the length, and swapped when \<open>a > b\<close>.\<close>
  "substring s a b = (let lo = min a b; hi = max a b in take (hi - lo) (drop lo s))"

definition substringFrom :: "string \<Rightarrow> nat \<Rightarrow> string" where
  \<comment> \<open>\<open>s.substring(a)\<close>\<close>
  "substringFrom s a = drop a s"

fun indexOf :: "string \<Rightarrow> char \<Rightarrow> nat option" where
  \<comment> \<open>\<open>s.indexOf(c)\<close> for a one-character \<open>c\<close>; \<open>None\<close> is the source's \<open>-1\<close>.\<close>
  "indexOf [] c = None"
| "indexOf (x # xs) c = (if x = c then Some 0 else map_option Suc (indexOf xs c))"

fun includesText :: "string \<Rightarrow> string \<Rightarrow> bool" where
  \<comment> \<open>\<open>s.includes(sub)\<close>\<close>
  "includesText [] sub = (sub = [])"
| "includesText (c # s) sub = (prefix sub (c # s) \<or> includesText s sub)"

definition isAlnum :: "char \<Rightarrow> bool" where
  \<comment> \<open>the class \<open>[a-zA-Z0-9]\<close>\<close>
  "isAlnum c = (c \<in> set ''abcdefghijklmnopqrstuvwxyzABCDEFGHIJKLMNOPQRSTUVWXYZ0123456789'')"

definition isWordChar :: "char \<Rightarrow> bool" where
  \<comment> \<open>the class \<open>[a-zA-Z0-9_]\<close>\<close>
  "isWordChar c = (isAlnum c \<or> c = CHR ''_'')"

definition prependToFirst :: "'a \<Rightarrow> 'a list list \<Rightarrow> 'a list list" where
  \<comment> \<open>a character that is no separator extends the piece being read\<close>
  "prependToFirst c pieces = (case pieces of [] \<Rightarrow> [[c]] | p # ps \<Rightarrow> (c # p) # ps)"

fun splitChar :: "char \<Rightarrow> string \<Rightarrow> string list" where
  \<comment> \<open>\<open>s.split(d)\<close> for a one-character separator: never empty, the empty string
      splits into one empty piece\<close>
  "splitChar d [] = [[]]"
| "splitChar d (c # s) =
     (if c = d then [] # splitChar d s else prependToFirst c (splitChar d s))"


section \<open>JavaScript objects\<close>

text \<open>
  A row is a plain object whose values are strings. The map holds its own properties;
  everything else is read from \<open>Object.prototype\<close>, whose property names are listed.
  The values the server sends are taken to be strings too.
\<close>

type_synonym jsObject = "string \<rightharpoonup> string"

datatype jsValue =
    Undefined
  | Str string
  | Inherited string

definition objectPrototypeNames :: "string list" where
  "objectPrototypeNames =
     [''constructor'', ''__defineGetter__'', ''__defineSetter__'', ''hasOwnProperty'',
      ''__lookupGetter__'', ''__lookupSetter__'', ''isPrototypeOf'', ''propertyIsEnumerable'',
      ''toString'', ''valueOf'', ''__proto__'', ''toLocaleString'']"

definition setProp :: "jsObject \<Rightarrow> string \<Rightarrow> string \<Rightarrow> jsObject" where
  \<comment> \<open>\<open>obj[name] = v\<close> for a string \<open>v\<close>, on an object that has no own property
      \<open>__proto__\<close>: that name is the setter of the prototype, which ignores a value
      that is no object, so no property is made; any other name becomes an own property\<close>
  "setProp obj name v = (if name = ''__proto__'' then obj else obj(name \<mapsto> v))"

definition getProp :: "jsObject \<Rightarrow> string \<Rightarrow> jsValue" where
  \<comment> \<open>\<open>obj[name]\<close>: the own property, else the member of \<open>Object.prototype\<close> of that
      name (a function, or the prototype itself for \<open>__proto__\<close>), else \<open>undefined\<close>\<close>
  "getProp obj name =
     (case obj name of
        Some v \<Rightarrow> Str v
      | None \<Rightarrow> if name \<in> set objectPrototypeNames then Inherited name else Undefined)"


section \<open>Tabular Decoder (utils/csvParser: parseCSV)\<close>

record table =
  columns :: "string list"
  data :: "jsObject list"

fun replaceDoubledQuotes :: "string \<Rightarrow> string" where
  \<comment> \<open>\<open>.replace(/""/g, '"')\<close>: the pairs are taken from the left, without overlap\<close>
  "replaceDoubledQuotes (c # d # s) =
     (if c = DQUOTE \<and> d = DQUOTE then DQUOTE # replaceDoubledQuotes s
      else c # replaceDoubledQuotes (d # s))"
| "replaceDoubledQuotes s = s"

definition startsWithQuote :: "string \<Rightarrow> bool" where
  "startsWithQuote s = (case s of [] \<Rightarrow> False | c # _ \<Rightarrow> c = DQUOTE)"

definition endsWithQuote :: "string \<Rightarrow> bool" where
  "endsWithQuote s = (case rev s of [] \<Rightarrow> False | c # _ \<Rightarrow> c = DQUOTE)"

definition unquote :: "string \<Rightarrow> string" where
  \<comment> \<open>what \<open>parseLine\<close> does to a field before pushing it\<close>
  "unquote field =
     (if startsWithQuote field \<and> endsWithQuote field
      then replaceDoubledQuotes (substring field 1 (length field - 1))
      else field)"

text \<open>
  The \<open>for\<close> loop of \<open>parseLine\<close>, with its variables \<open>i\<close>, \<open>start\<close>, \<open>inQuotes\<close>
  and \<open>result\<close>; it returns \<open>start\<close> and \<open>result\<close> as they are after the last character.
\<close>

function parseLoop :: "string \<Rightarrow> nat \<Rightarrow> nat \<Rightarrow> bool \<Rightarrow> string list \<Rightarrow> nat \<times> string list" where
  "parseLoop line i start inQuotes result =
     (if i < length line then
        (if line ! i = DQUOTE then parseLoop line (i + 1) start (\<not> inQuotes) result
         else if line ! i = CHR '','' \<and> \<not> inQuotes
         then parseLoop line (i + 1) (i + 1) inQuotes (result @ [unquote (substring line start i)])
         else parseLoop line (i + 1) start inQuotes result)
      else (start, result))"
  by pat_completeness auto
termination
  by (relation "measure (\<lambda>(line, i, start, inQuotes, result). length line - i)") auto

declare parseLoop.simps [simp del]

definition parseLine :: "string \<Rightarrow> string list" where
  "parseLine line =
     (case parseLoop line 0 0 False [] of
        (start, result) \<Rightarrow> result @ [unquote (substringFrom line start)])"

fun fillRow :: "string list \<Rightarrow> string list \<Rightarrow> nat \<Rightarrow> jsObject \<Rightarrow> jsObject" where
  \<comment> \<open>\<open>headers.forEach((h, i) => { row[h] = values[i] || ""; })\<close>, from index \<open>i\<close> on\<close>
  "fillRow [] values i row = row"
| "fillRow (h # hs) values i row =
     fillRow hs values (i + 1)
       (setProp row h (if i < length values \<and> values ! i \<noteq> [] then values ! i else []))"

definition makeRow :: "string list \<Rightarrow> string list \<Rightarrow> jsObject" where
  \<comment> \<open>\<open>const row = {}\<close>, filled\<close>
  "makeRow headers values = fillRow headers values 0 Map.empty"

definition parseCSV :: "string \<Rightarrow> table" where
  \<comment> \<open>\<open>!csvText\<close> holds of the empty string (and of \<open>undefined\<close>, which the model does not
      tell apart from it)\<close>
  "parseCSV csvText =
     (if csvText = [] then \<lparr>columns = [], data = []\<rparr>
      else
        (case filter (\<lambda>l. trim l \<noteq> []) (splitChar LF csvText) of
           [] \<Rightarrow> \<lparr>columns = [], data = []\<rparr>
         | l0 # rest \<Rightarrow>
             (let headers = parseLine l0
              in \<lparr>columns = headers,
                  data = map (\<lambda>line. makeRow headers (parseLine line)) rest\<rparr>)))"

text \<open>
  The same scan as \<open>parseLoop\<close>, by recursion on the characters still to read: \<open>cur\<close> is
  \<open>line.substring(start, i)\<close>. The proofs go through it (\<open>parseLine_fieldsOf\<close> below).
\<close>

fun fieldsOf :: "string \<Rightarrow> bool \<Rightarrow> string \<Rightarrow> string list" where
  "fieldsOf cur inQuotes [] = [unquote cur]"
| "fieldsOf cur inQuotes (c # s) =
     (if c = DQUOTE then fieldsOf (cur @ [c]) (\<not> inQuotes) s
      else if c = CHR '','' \<and> \<not> inQuotes then unquote cur # fieldsOf [] inQuotes s
      else fieldsOf (cur @ [c]) inQuotes s)"

text \<open>
  The writer the decoder is measured against (the repository has none). A cell is a
  field with the writer's choice to quote it; a field that holds a comma, a quote or a
  newline is quoted whatever the choice. A quoted field is put in quotes with its
  quotes doubled, fields are joined by commas and rows by newlines.
\<close>

type_synonym cell = "bool \<times> string"

fun escapeQuotes :: "string \<Rightarrow> string" where
  "escapeQuotes [] = []"
| "escapeQuotes (c # s) =
     (if c = DQUOTE then DQUOTE # DQUOTE # escapeQuotes s else c # escapeQuotes s)"

definition encodeField :: "cell \<Rightarrow> string" where
  "encodeField cl =
     (case cl of (quoted, f) \<Rightarrow>
        if quoted \<or> CHR '','' \<in> set f \<or> DQUOTE \<in> set f \<or> LF \<in> set f
        then DQUOTE # escapeQuotes f @ [DQUOTE] else f)"

fun joinWith :: "'a \<Rightarrow> 'a list list \<Rightarrow> 'a list" where
  "joinWith sep [] = []"
| "joinWith sep [x] = x"
| "joinWith sep (x # y # ys) = x @ sep # joinWith sep (y # ys)"

definition encodeLine :: "cell list \<Rightarrow> string" where
  "encodeLine cells = joinWith (CHR '','') (map encodeField cells)"

definition encodeText :: "cell list list \<Rightarrow> string" where
  "encodeText rows = joinWith LF (map encodeLine rows)"

definition fieldAt :: "cell list \<Rightarrow> nat \<Rightarrow> string" where
  \<comment> \<open>the field written at position \<open>j\<close> of a row, empty past its end\<close>
  "fieldAt cells j = (if j < length cells then snd (cells ! j) else [])"


section \<open>Evidence Locator (components/DocumentSidebar.jsx)\<close>

type_synonym span = "nat \<times> nat"

definition canonicalize :: "char \<Rightarrow> char" where
  \<comment> \<open>The case folding of the \<open>i\<close> flag, on ASCII letters. Without the \<open>u\<close> flag a
      character outside ASCII never folds onto an ASCII one, and the words of
      \<open>getFlexibleRegex\<close> hold ASCII only, so for its expressions this is all of it.\<close>
  "canonicalize c =
     (case map_of (zip ''abcdefghijklmnopqrstuvwxyz'' ''ABCDEFGHIJKLMNOPQRSTUVWXYZ'') c of
        Some u \<Rightarrow> u
      | None \<Rightarrow> c)"

fun matchesAt :: "string \<Rightarrow> string \<Rightarrow> bool" where
  \<comment> \<open>the literal \<open>p\<close> matches at the start of the text, ignoring case\<close>
  "matchesAt [] t = True"
| "matchesAt (p # ps) [] = False"
| "matchesAt (p # ps) (c # t) = (canonicalize p = canonicalize c \<and> matchesAt ps t)"

text \<open>
  The marking loop of mark.js (\<open>regex.exec\<close> with the \<open>g\<close> flag over the text of the
  content element): \<open>exec\<close> gives the length of the match at the start of its argument;
  the search resumes at the end of each match, and stops at an empty match. \<open>pos\<close> is
  the offset of the text still to scan, \<open>skip\<close> the number of characters of the last
  match not yet passed.
\<close>

fun scanWith :: "(string \<Rightarrow> nat option) \<Rightarrow> string \<Rightarrow> nat \<Rightarrow> nat \<Rightarrow> span list" where
  "scanWith exec [] pos skip = []"
| "scanWith exec (c # t) pos skip =
     (if skip > 0 then scanWith exec t (pos + 1) (skip - 1)
      else
        (case exec (c # t) of
           None \<Rightarrow> scanWith exec t (pos + 1) 0
         | Some m \<Rightarrow>
             if m = 0 then [] else (pos, pos + m) # scanWith exec t (pos + 1) (m - 1)))"

text \<open>
  Modelled from the spec: \<open>instance.mark(highlight, {separateWordSearch: false, ...})\<close> is
  a call into the mark.js library, which is not under src/. Section 4.2 of the spec
  gives its contract: search for the phrase verbatim inside the body, ignoring case.
\<close>

definition markExact :: "string \<Rightarrow> string \<Rightarrow> span list" where
  "markExact keyword body =
     scanWith (\<lambda>t. if matchesAt keyword t then Some (length keyword) else None) body 0 0"

definition escapeRegExp :: "string \<Rightarrow> string" where
  \<comment> \<open>\<open>string.replace(/[.*+?^${}()|[\]\\]/g, '\\$&')\<close>: a backslash before each special character\<close>
  "escapeRegExp s =
     concat (map (\<lambda>c. if c \<in> set (''.*+?^${}()|[]'' @ [BACKSLASH]) then [BACKSLASH, c] else [c]) s)"

function splitNonWord :: "string \<Rightarrow> string list" where
  \<comment> \<open>\<open>term.split(/[^a-zA-Z0-9_]+/)\<close>: a run of other characters is one separator\<close>
  "splitNonWord [] = [[]]"
| "splitNonWord (c # s) =
     (if isWordChar c then prependToFirst c (splitNonWord s)
      else [] # splitNonWord (dropWhile (\<lambda>x. \<not> isWordChar x) s))"
  by pat_completeness auto
termination
  by (relation "measure length") (auto simp: length_dropWhile_le less_Suc_eq_le)

text \<open>
  \<open>getFlexibleRegex\<close> returns \<open>new RegExp(pattern, 'gi')\<close> or null, where \<open>pattern\<close> is
  the escaped words joined by the separator \<open>[\W_]+\<close>.
  The model returns the list \<open>escapedWords\<close>, which stands for that expression, and
  \<open>None\<close> for null. The constructor cannot throw on such a pattern.
\<close>

definition getFlexibleRegex :: "string \<Rightarrow> string list option" where
  "getFlexibleRegex term =
     (if term = [] \<or> length term < 2 then None
      else
        (let words = filter (\<lambda>w. length w > 0) (splitNonWord term)
         in if length words = 0 then None
            else Some (map escapeRegExp words)))"

fun patternChars :: "string \<Rightarrow> string" where
  \<comment> \<open>the characters an escaped word matches: a backslash makes the next one literal\<close>
  "patternChars (c # d # s) =
     (if c = BACKSLASH then d # patternChars s else c # patternChars (d # s))"
| "patternChars s = s"

definition isSeparator :: "char \<Rightarrow> bool" where
  \<comment> \<open>the class \<open>[\W_]\<close>: everything but \<open>[a-zA-Z0-9]\<close>\<close>
  "isSeparator c = (\<not> isAlnum c)"

fun trySeparators :: "(string \<Rightarrow> nat option) \<Rightarrow> string \<Rightarrow> nat \<Rightarrow> nat option" where
  \<comment> \<open>the greedy \<open>[\W_]+\<close> followed by the rest of the pattern: the longest run first,
      then one character less, down to one\<close>
  "trySeparators continue rest 0 = None"
| "trySeparators continue rest (Suc k) =
     (case continue (drop (Suc k) rest) of
        Some m \<Rightarrow> Some (Suc k + m)
      | None \<Rightarrow> trySeparators continue rest k)"

fun matchWords :: "string list \<Rightarrow> string \<Rightarrow> nat option" where
  \<comment> \<open>the length of the match of the expression at the start of the text, if any\<close>
  "matchWords [] t = Some 0"
| "matchWords [w] t =
     (if matchesAt (patternChars w) t then Some (length (patternChars w)) else None)"
| "matchWords (w # v # vs) t =
     (if matchesAt (patternChars w) t
      then
        (let rest = drop (length (patternChars w)) t
         in map_option (\<lambda>m. length (patternChars w) + m)
              (trySeparators (matchWords (v # vs)) rest (length (takeWhile isSeparator rest))))
      else None)"

definition markRegExp :: "string list \<Rightarrow> string \<Rightarrow> span list" where
  \<comment> \<open>\<open>instance.markRegExp(regex, ...)\<close>\<close>
  "markRegExp regex body = scanWith (matchWords regex) body 0 0"

datatype exception = ReferenceError string

datatype strategy = ExactMatch | WordSequence | LooseFallback

record located =
  attempted :: "strategy list"
  spans :: "span list"
  raised :: "exception option"

datatype viewMode = Preview | Source

definition toLowerChar :: "char \<Rightarrow> char" where
  \<comment> \<open>\<open>toLowerCase\<close> on one code unit below 256: the ASCII capitals, and the capitals
      of Latin-1 (0xC0 to 0xDE, but for the multiplication sign 0xD7)\<close>
  "toLowerChar c =
     (let n = (of_char c :: nat)
      in if 65 \<le> n \<and> n \<le> 90 then char_of (n + 32)
         else if 192 \<le> n \<and> n \<le> 222 \<and> n \<noteq> 215 then char_of (n + 32)
         else c)"

definition toLowerCase :: "string \<Rightarrow> string" where
  "toLowerCase s = map toLowerChar s"

definition isHtmlDoc :: "string \<Rightarrow> bool" where
  \<comment> \<open>\<open>content && (content.trim().toLowerCase().startsWith('<!doctype') ||
      content.trim().toLowerCase().startsWith('<html'))\<close>\<close>
  "isHtmlDoc content =
     (content \<noteq> []
      \<and> (prefix ''<!doctype'' (toLowerCase (trim content))
         \<or> prefix ''<html'' (toLowerCase (trim content))))"

text \<open>
  The text of the content element, as \<open>renderContent\<close> fills it: a notice when there is
  no content; in the source view the content itself, in a \<open>pre\<close> element; in the
  preview an HTML document goes into a frame of its own, which leaves no text in the
  element, and any other content is rendered by the libraries marked and DOMPurify.
  \<open>renderPreview\<close> stands for these two and the text of what they produce.
\<close>

definition contentText :: "(string \<Rightarrow> string) \<Rightarrow> viewMode \<Rightarrow> string \<Rightarrow> string" where
  "contentText renderPreview viewMode content =
     (if content = [] then ''No content loaded''
      else
        (case viewMode of
           Preview \<Rightarrow> if isHtmlDoc content then [] else renderPreview content
         | Source \<Rightarrow> content))"

text \<open>
  The highlighting effect. Its guard is
  \<open>isOpen && contentRef.current && highlight && !isHtmlDoc\<close>; the content element is
  always mounted, so \<open>contentRef.current\<close> holds. \<open>mark\<close> is strategy 1, the library's
  search for the phrase, run on the text of the content element. \<open>attempted\<close> lists
  the strategies the effect reaches, \<open>spans\<close> the marks it leaves. \<open>getPreviewRegex\<close>
  is called in the innermost branch and declared nowhere: the file neither defines nor
  imports it, so the call raises a ReferenceError.
\<close>

definition locate ::
  "(string \<Rightarrow> string \<Rightarrow> span list) \<Rightarrow> (string \<Rightarrow> string) \<Rightarrow> bool \<Rightarrow> viewMode \<Rightarrow> string \<Rightarrow> string
   \<Rightarrow> located" where
  "locate mark renderPreview isOpen viewMode content highlight =
     (if isOpen \<and> highlight \<noteq> [] \<and> \<not> isHtmlDoc content then
        (let body = contentText renderPreview viewMode content;
             marks = mark highlight body
         in if length marks > 0
            then \<lparr>attempted = [ExactMatch], spans = marks, raised = None\<rparr>
            else
              (case getFlexibleRegex highlight of
                 None \<Rightarrow> \<lparr>attempted = [ExactMatch], spans = [], raised = None\<rparr>
               | Some regex \<Rightarrow>
                   (let marksRegex = markRegExp regex body
                    in if length marksRegex > 0
                       then \<lparr>attempted = [ExactMatch, WordSequence], spans = marksRegex,
                             raised = None\<rparr>
                       else \<lparr>attempted = [ExactMatch, WordSequence, LooseFallback],
                             spans = [],
                             raised = Some (ReferenceError ''getPreviewRegex'')\<rparr>)))
      else \<lparr>attempted = [], spans = [], raised = None\<rparr>)"


section \<open>Stage statuses (App.jsx: ProgressVisualizer)\<close>

datatype status = Waiting | Active | Completed

record stages =
  converting :: status
  analyzing :: status
  processing :: status

text \<open>
  The body of \<open>logs.forEach\<close>, as far as it writes \<open>newState\<close>. The statements between
  the fifth and the sixth \<open>if\<close> write \<open>newAgentState\<close> only and are left out.
\<close>

definition applyLog :: "string \<Rightarrow> stages \<Rightarrow> stages" where
  "applyLog log newState =
     (let s1 = (if includesText log ''Converting documents''
                then newState\<lparr>converting := Active\<rparr> else newState);
          s2 = (if includesText log ''Converted'' then s1\<lparr>converting := Completed\<rparr> else s1);
          s3 = (if includesText log ''Analyzing content'' then s2\<lparr>analyzing := Active\<rparr> else s2);
          s4 = (if includesText log ''Content fits'' \<or> includesText log ''Content too large''
                then s3\<lparr>analyzing := Completed\<rparr> else s3);
          s5 = (if includesText log ''Calling LLM'' \<or> includesText log ''Starting iterative agent''
                then s4\<lparr>processing := Active\<rparr> else s4);
          s6 = (if includesText log ''process completed'' \<or> includesText log ''Response saved''
                then s5\<lparr>processing := Completed\<rparr> else s5)
      in s6)"

definition stageStatuses :: "string list \<Rightarrow> stages" where
  \<comment> \<open>the effect runs on every change of \<open>logs\<close> and starts from three waiting stages\<close>
  "stageStatuses logs =
     fold applyLog logs \<lparr>converting = Waiting, analyzing = Waiting, processing = Waiting\<rparr>"

fun rank :: "status \<Rightarrow> nat" where
  "rank Waiting = 0"
| "rank Active = 1"
| "rank Completed = 2"


section \<open>Session stream and iteration store (App.jsx: handleRun, handleIterationSelect)\<close>

record snapshot =
  iteration :: int
  content :: string

record migration =
  source :: table
  target :: table

text \<open>
  What \<open>JSON.parse\<close> and the chain of tests on \<open>event.type\<close> tell apart. The payload of
  \<open>agent_state\<close> is opaque to the client and kept as text.
\<close>

datatype event =
    Progress string
  | Usage int
  | AgentState string
  | IterationComplete int string
  | Result migration
  | Error string
  | Unrecognized

text \<open>
  The state variables of \<open>App\<close> that the stream writes. \<open>currentData\<close> is the variable
  \<open>data\<close>, renamed because \<open>data\<close> is a field of \<open>table\<close>.
\<close>

record appState =
  progress :: "string list"
  totalTokens :: int
  agentDetailedState :: "string option"
  currentData :: "migration option"
  finalData :: "migration option"
  iterationResults :: "snapshot list"
  selectedIteration :: "int option"
  error :: "string option"

definition runStart :: appState where
  \<comment> \<open>the resets at the top of \<open>handleRun\<close>\<close>
  "runStart = \<lparr>progress = [], totalTokens = 0, agentDetailedState = None, currentData = None,
     finalData = None, iterationResults = [], selectedIteration = None, error = None\<rparr>"

fun applyEvent :: "event \<Rightarrow> appState \<Rightarrow> appState" where
  "applyEvent (Progress message) st = st\<lparr>progress := progress st @ [message]\<rparr>"
| "applyEvent (Usage tokens) st = st\<lparr>totalTokens := totalTokens st + tokens\<rparr>"
| "applyEvent (AgentState d) st = st\<lparr>agentDetailedState := Some d\<rparr>"
| "applyEvent (IterationComplete i csv_content) st =
     st\<lparr>iterationResults :=
          sort_key iteration (iterationResults st @ [\<lparr>iteration = i, content = csv_content\<rparr>])\<rparr>"
| "applyEvent (Result d) st = st\<lparr>currentData := Some d, finalData := Some d\<rparr>"
| "applyEvent (Error message) st = st\<lparr>error := Some message\<rparr>"
| "applyEvent Unrecognized st = st"

fun splitRecords :: "string \<Rightarrow> string list" where
  \<comment> \<open>\<open>buffer.split('\n\n')\<close>: the separators are found from the left, without overlap\<close>
  "splitRecords (c # d # s) =
     (if c = LF \<and> d = LF then [] # splitRecords s
      else prependToFirst c (splitRecords (d # s)))"
| "splitRecords s = [s]"

definition processLine :: "(string \<Rightarrow> event option) \<Rightarrow> string \<Rightarrow> appState \<Rightarrow> appState" where
  \<comment> \<open>the body of \<open>for (const line of lines)\<close>; \<open>parse\<close> is \<open>JSON.parse\<close> with the reading of
      the event's fields, \<open>None\<close> when it throws\<close>
  "processLine parse line st =
     (if prefix ''data: '' line
      then (case parse (drop 6 line) of None \<Rightarrow> st | Some event \<Rightarrow> applyEvent event st)
      else st)"

text \<open>
  One turn of the \<open>while\<close> loop of \<open>handleRun\<close> on the decoded text of a chunk:
  \<open>buffer += chunk; lines = buffer.split('\n\n'); buffer = lines.pop()\<close>, then the loop
  over \<open>lines\<close>, whose body is \<open>onLine\<close>.
\<close>

definition readChunk :: "(string \<Rightarrow> 's \<Rightarrow> 's) \<Rightarrow> string \<Rightarrow> string \<times> 's \<Rightarrow> string \<times> 's" where
  "readChunk onLine chunk bs =
     (case bs of (buffer, st) \<Rightarrow>
        (let lines = splitRecords (buffer @ chunk)
         in (last lines, fold onLine (butlast lines) st)))"

definition readStream :: "(string \<Rightarrow> 's \<Rightarrow> 's) \<Rightarrow> string list \<Rightarrow> 's \<Rightarrow> 's" where
  \<comment> \<open>until \<open>done\<close>; what is left in \<open>buffer\<close> then is dropped\<close>
  "readStream onLine chunks st = snd (fold (readChunk onLine) chunks ([], st))"

definition handleRunStream :: "(string \<Rightarrow> event option) \<Rightarrow> string list \<Rightarrow> appState" where
  "handleRunStream parse chunks = readStream (processLine parse) chunks runStart"

definition deframe :: "string list \<Rightarrow> string list" where
  \<comment> \<open>the records the loop hands to its body, in order\<close>
  "deframe chunks = readStream (\<lambda>line seen. seen @ [line]) chunks []"

definition eventsRead :: "(string \<Rightarrow> event option) \<Rightarrow> string list \<Rightarrow> event list" where
  \<comment> \<open>the events the loop parses, in order\<close>
  "eventsRead parse chunks =
     readStream
       (\<lambda>line seen.
          if prefix ''data: '' line
          then (case parse (drop 6 line) of None \<Rightarrow> seen | Some event \<Rightarrow> seen @ [event])
          else seen)
       chunks []"

fun snapshotsOf :: "event list \<Rightarrow> snapshot list" where
  \<comment> \<open>the snapshots a sequence of events carries, in arrival order\<close>
  "snapshotsOf [] = []"
| "snapshotsOf (IterationComplete i c # evs) = \<lparr>iteration = i, content = c\<rparr> # snapshotsOf evs"
| "snapshotsOf (_ # evs) = snapshotsOf evs"

definition handleIterationSelect :: "int option \<Rightarrow> appState \<Rightarrow> appState" where
  "handleIterationSelect sel st =
     (let st1 = st\<lparr>selectedIteration := sel\<rparr>
      in case sel of
           None \<Rightarrow>
             (case finalData st of None \<Rightarrow> st1 | Some fd \<Rightarrow> st1\<lparr>currentData := Some fd\<rparr>)
         | Some k \<Rightarrow>
             (case find (\<lambda>r. iteration r = k) (iterationResults st) of
                None \<Rightarrow> st1
              | Some result \<Rightarrow>
                  (case finalData st of
                     None \<Rightarrow> st1
                   | Some fd \<Rightarrow>
                       st1\<lparr>currentData :=
                            Some \<lparr>source = source fd, target = parseCSV (content result)\<rparr>\<rparr>)))"

text \<open>
  The rows handed to the grid. A row object maps a field name to the value assigned to
  it, which is what reading the column from the source or target row gives. The field
  names carry a prefix, so none of them is \<open>__proto__\<close> and each assignment makes a
  property.
\<close>

type_synonym gridRow = "string \<rightharpoonup> jsValue"

fun assignColumns :: "string \<Rightarrow> string list \<Rightarrow> jsObject \<Rightarrow> gridRow \<Rightarrow> gridRow" where
  \<comment> \<open>\<open>columns.forEach(col => obj[`${pre}${col}`] = row[col])\<close>\<close>
  "assignColumns pre [] row obj = obj"
| "assignColumns pre (col # cols) row obj =
     assignColumns pre cols row (obj(pre @ col \<mapsto> getProp row col))"

definition gridRowAt :: "migration \<Rightarrow> nat \<Rightarrow> jsObject \<Rightarrow> gridRow" where
  \<comment> \<open>\<open>data.target.data[idx] || {}\<close>: past the end of the target rows, an object with no
      property of its own\<close>
  "gridRowAt d idx row =
     (let targetRow = (if idx < length (data (target d)) then data (target d) ! idx
                       else Map.empty);
          obj1 = assignColumns ''source_'' (columns (source d)) row Map.empty;
          obj2 = assignColumns ''target_'' (columns (target d)) targetRow obj1
      in obj2(''__gap__'' \<mapsto> Str []))"

definition gridRows :: "migration \<Rightarrow> gridRow list" where
  \<comment> \<open>\<open>data.source.data.map((row, idx) => ...)\<close>\<close>
  "gridRows d =
     map (\<lambda>(idx, row). gridRowAt d idx row)
       (zip [0..<length (data (source d))] (data (source d)))"

section \<open>Reference Resolver (App.jsx, the cell click handlers and handleViewDocument)\<close>

text \<open>
  The click handler of the \<open>Target Source\<close> column splits the cell value inline:
  \<^verbatim>\<open>
  const firstColonIndex = value.indexOf(':');
  if (firstColonIndex !== -1) {
      filename = value.substring(0, firstColonIndex).trim();
      context = value.substring(firstColonIndex + 1).trim();
  } else { filename = value; }
  \<close>
  The block has no name in the source; \<open>resolve\<close> returns the pair
  \<open>(filename, context)\<close> it computes.
\<close>

definition resolve :: "string \<Rightarrow> string \<times> string" where
  "resolve value =
     (case indexOf value (CHR '':'') of
        Some firstColonIndex \<Rightarrow>
          (trim (substring value 0 firstColonIndex),
           trim (substringFrom value (firstColonIndex + 1)))
      | None \<Rightarrow> (value, []))"

fun matchesExtension :: "string \<Rightarrow> bool" where
  \<comment> \<open>\<open>filename.match(/\.[a-zA-Z0-9]{2,4}$/)\<close> is not null. The search tries every start
      position from the left; at one position the pattern matches when the character is
      a dot and what follows, up to the end of the input, is two to four characters of
      the class.\<close>
  "matchesExtension [] = False"
| "matchesExtension (c # cs) =
     ((c = CHR ''.'' \<and> 2 \<le> length cs \<and> length cs \<le> 4 \<and> list_all isAlnum cs)
      \<or> matchesExtension cs)"

definition invalidFilename :: "string \<Rightarrow> bool" where
  \<comment> \<open>the condition of both alerts: \<open>!filename.match(...) && filename.length > 20\<close>\<close>
  "invalidFilename filename = (\<not> matchesExtension filename \<and> length filename > 20)"

definition validFilename :: "string \<Rightarrow> bool" where
  "validFilename filename = (\<not> invalidFilename filename)"

datatype outcome =
    NoOp
  | InvalidFilenameAlert string
  | DocumentRequest string string

text \<open>
  \<open>handleViewDocument\<close> either alerts or sends the request for the document; on
  success the sidebar opens on \<open>filename\<close> with \<open>context\<close> as the phrase to highlight.
  \<open>DocumentRequest filename context\<close> stands for the request and what follows it.
\<close>

definition handleViewDocument :: "string \<Rightarrow> string \<Rightarrow> outcome" where
  "handleViewDocument filename context =
     (if invalidFilename filename then InvalidFilenameAlert filename
      else DocumentRequest filename context)"

definition targetSourceClick :: "string \<Rightarrow> outcome" where
  \<comment> \<open>the \<open>cellClick\<close> of the \<open>Target Source\<close> column, for a click on the View button\<close>
  "targetSourceClick value =
     (if value = [] then NoOp
      else
        (let (filename, context) = resolve value
         in if invalidFilename filename then InvalidFilenameAlert filename
            else handleViewDocument filename context))"

definition potentialMatchClick :: "string \<Rightarrow> outcome" where
  \<comment> \<open>the \<open>cellClick\<close> of the \<open>Potential Matches\<close> column: the same split, and the shape
      check is left to \<open>handleViewDocument\<close>\<close>
  "potentialMatchClick value =
     (if value = [] then NoOp
      else (let (filename, context) = resolve value in handleViewDocument filename context))"



section \<open>Properties of the Reference Resolver\<close>

lemma indexOf_first: "c \<notin> set a \<Longrightarrow> indexOf (a @ c # b) c = Some (length a)"
  by (induction a) auto

lemma indexOf_absent: "c \<notin> set s \<Longrightarrow> indexOf s c = None"
  by (induction s) auto

lemma resolve_colon:
  assumes "CHR '':'' \<notin> set a"
  shows "resolve (a @ CHR '':'' # b) = (trim a, trim b)"
  using indexOf_first [OF assms, of b]
  by (simp add: resolve_def substring_def substringFrom_def)

lemma resolve_no_colon: "CHR '':'' \<notin> set raw \<Longrightarrow> resolve raw = (raw, [])"
  by (simp add: resolve_def indexOf_absent)

lemma matchesExtension_append:
  "2 \<le> length ext \<Longrightarrow> length ext \<le> 4 \<Longrightarrow> list_all isAlnum ext
   \<Longrightarrow> matchesExtension (stem @ CHR ''.'' # ext)"
  by (induction stem) auto

lemma matchesExtension_split:
  "matchesExtension s \<Longrightarrow>
   \<exists>stem ext. s = stem @ CHR ''.'' # ext \<and> 2 \<le> length ext \<and> length ext \<le> 4
     \<and> list_all isAlnum ext"
proof (induction s)
  case Nil
  then show ?case by simp
next
  case (Cons c cs)
  show ?case
  proof (cases "c = CHR ''.'' \<and> 2 \<le> length cs \<and> length cs \<le> 4 \<and> list_all isAlnum cs")
    case True
    then have "c # cs = [] @ CHR ''.'' # cs \<and> 2 \<le> length cs \<and> length cs \<le> 4
        \<and> list_all isAlnum cs"
      by simp
    then show ?thesis by blast
  next
    case False
    with Cons.prems have "matchesExtension cs" by auto
    from Cons.IH [OF this] obtain stem ext where
      "cs = stem @ CHR ''.'' # ext" "2 \<le> length ext" "length ext \<le> 4" "list_all isAlnum ext"
      by blast
    then have "c # cs = (c # stem) @ CHR ''.'' # ext \<and> 2 \<le> length ext \<and> length ext \<le> 4
        \<and> list_all isAlnum ext"
      by simp
    then show ?thesis by blast
  qed
qed

lemma matchesExtension_iff:
  "matchesExtension s \<longleftrightarrow>
   (\<exists>stem ext. s = stem @ CHR ''.'' # ext \<and> 2 \<le> length ext \<and> length ext \<le> 4
      \<and> list_all isAlnum ext)"
  using matchesExtension_split matchesExtension_append by blast

lemma matchesExtension_needs_dot: "CHR ''.'' \<notin> set s \<Longrightarrow> \<not> matchesExtension s"
  by (induction s) auto

text \<open>
  C9. For every raw reference string the split is at the first colon: the trimmed text
  before it is the identifier and the trimmed text after it the context; without a colon
  the whole string is the identifier and the context is empty. \<open>resolve\<close> is total, so
  it never fails. The shape check accepts an identifier exactly when it ends in a dot
  followed by two to four alphanumeric characters or is at most 20 characters long.
  \<open>ITEM.md: IPROD field\<close> resolves to \<open>ITEM.md\<close> and \<open>IPROD field\<close>, and the
  61-character string without extension is rejected.
\<close>

theorem resolve_first_colon_and_shape:
  "(\<forall>a b. raw = a @ CHR '':'' # b \<and> CHR '':'' \<notin> set a \<longrightarrow> resolve raw = (trim a, trim b))
   \<and> (CHR '':'' \<notin> set raw \<longrightarrow> resolve raw = (raw, []))
   \<and> (validFilename ident \<longleftrightarrow>
        (\<exists>stem ext. ident = stem @ CHR ''.'' # ext \<and> 2 \<le> length ext \<and> length ext \<le> 4
           \<and> list_all isAlnum ext)
        \<or> length ident \<le> 20)
   \<and> resolve ''ITEM.md: IPROD field'' = (''ITEM.md'', ''IPROD field'')
   \<and> length ''some-long-description-without-colon-or-extension-thirty-chars'' = 61
   \<and> \<not> validFilename ''some-long-description-without-colon-or-extension-thirty-chars''"
proof (intro conjI)
  show "\<forall>a b. raw = a @ CHR '':'' # b \<and> CHR '':'' \<notin> set a \<longrightarrow> resolve raw = (trim a, trim b)"
    by (auto simp: resolve_colon)
  show "CHR '':'' \<notin> set raw \<longrightarrow> resolve raw = (raw, [])"
    by (simp add: resolve_no_colon)
  show "validFilename ident \<longleftrightarrow>
        (\<exists>stem ext. ident = stem @ CHR ''.'' # ext \<and> 2 \<le> length ext \<and> length ext \<le> 4
           \<and> list_all isAlnum ext)
        \<or> length ident \<le> 20"
    unfolding validFilename_def invalidFilename_def matchesExtension_iff by auto
  show "resolve ''ITEM.md: IPROD field'' = (''ITEM.md'', ''IPROD field'')"
    by (simp add: resolve_def substring_def substringFrom_def trim_def isSpace_def)
  show "length ''some-long-description-without-colon-or-extension-thirty-chars'' = 61"
    by simp
  show "\<not> validFilename ''some-long-description-without-colon-or-extension-thirty-chars''"
    by (simp add: validFilename_def invalidFilename_def matchesExtension_needs_dot)
qed

theorem resolve_first_colon_and_shape_witness:
  "resolve ''a.md : b:c '' = (''a.md'', ''b:c'')
   \<and> resolve '' plain '' = ('' plain '', [])
   \<and> validFilename ''a.md''"
proof -
  note spec = resolve_first_colon_and_shape [of "''a.md : b:c ''" "''a.md''"]
  have colon: "''a.md : b:c '' = ''a.md '' @ CHR '':'' # '' b:c '' \<and> CHR '':'' \<notin> set ''a.md ''"
    by simp
  from spec have "\<forall>a b. ''a.md : b:c '' = a @ CHR '':'' # b \<and> CHR '':'' \<notin> set a
      \<longrightarrow> resolve ''a.md : b:c '' = (trim a, trim b)"
    by (rule conjunct1)
  with colon have "resolve ''a.md : b:c '' = (trim ''a.md '', trim '' b:c '')"
    by blast
  then have r1: "resolve ''a.md : b:c '' = (''a.md'', ''b:c'')"
    by (simp add: trim_def isSpace_def)
  have "CHR '':'' \<notin> set '' plain ''" by simp
  with resolve_first_colon_and_shape [of "'' plain ''" "''a.md''"]
  have r2: "resolve '' plain '' = ('' plain '', [])"
    by blast
  have "''a.md'' = ''a'' @ CHR ''.'' # ''md'' \<and> 2 \<le> length ''md'' \<and> length ''md'' \<le> 4
      \<and> list_all isAlnum ''md''"
    by (simp add: isAlnum_def)
  then have "\<exists>stem ext. ''a.md'' = stem @ CHR ''.'' # ext \<and> 2 \<le> length ext \<and> length ext \<le> 4
      \<and> list_all isAlnum ext"
    by blast
  with spec have r3: "validFilename ''a.md''"
    by blast
  from r1 r2 r3 show ?thesis by blast
qed

text \<open>
  C10. A non-empty raw value that begins with a colon resolves to the empty identifier,
  with the trimmed remainder as context. The empty identifier passes the shape check, its
  length 0 not being greater than 20, so no alert is raised and the document request goes
  out with an empty filename.
\<close>

theorem leading_colon_requests_empty_filename:
  "resolve (CHR '':'' # rest) = ([], trim rest)
   \<and> validFilename []
   \<and> targetSourceClick (CHR '':'' # rest) = DocumentRequest [] (trim rest)
   \<and> potentialMatchClick (CHR '':'' # rest) = DocumentRequest [] (trim rest)"
  by (simp add: resolve_def substring_def substringFrom_def trim_def validFilename_def
      invalidFilename_def targetSourceClick_def potentialMatchClick_def handleViewDocument_def)


section \<open>Properties of the Tabular Decoder\<close>

lemma comma_not_quote [simp]: "CHR '','' \<noteq> DQUOTE" "DQUOTE \<noteq> CHR '',''"
  by (simp_all add: DQUOTE_def)

lemma substring_step:
  "start \<le> i \<Longrightarrow> i < length line
   \<Longrightarrow> substring line start (Suc i) = substring line start i @ [line ! i]"
  by (simp add: substring_def min_def max_def Suc_diff_le take_Suc_conv_app_nth)

lemma substring_empty: "substring line i i = []"
  by (simp add: substring_def)

text \<open>The loop over indices computes what the scan over the remaining characters does.\<close>

lemma parseLoop_fieldsOf:
  "start \<le> i \<Longrightarrow> i \<le> length line \<Longrightarrow>
   (case parseLoop line i start inQuotes result of
      (start', result') \<Rightarrow> result' @ [unquote (substringFrom line start')])
   = result @ fieldsOf (substring line start i) inQuotes (drop i line)"
proof (induction line i start inQuotes result rule: parseLoop.induct)
  case (1 line i start inQuotes result)
  show ?case
  proof (cases "i < length line")
    case False
    with "1.prems" have "i = length line" by simp
    then show ?thesis
      using "1.prems"
      by (subst parseLoop.simps) (simp add: substring_def substringFrom_def min_def max_def)
  next
    case True
    then have dr: "drop i line = line ! i # drop (Suc i) line"
      by (simp add: Cons_nth_drop_Suc)
    have step: "substring line start (Suc i) = substring line start i @ [line ! i]"
      using True "1.prems" by (simp add: substring_step)
    consider (quote) "line ! i = DQUOTE"
      | (comma) "line ! i \<noteq> DQUOTE" "line ! i = CHR '','' \<and> \<not> inQuotes"
      | (other) "line ! i \<noteq> DQUOTE" "\<not> (line ! i = CHR '','' \<and> \<not> inQuotes)"
      by blast
    then show ?thesis
    proof cases
      case quote
      with True "1.prems" "1.IH"(1) [OF True quote] show ?thesis
        by (subst parseLoop.simps) (simp add: dr step)
    next
      case comma
      with True "1.prems" "1.IH"(2) [OF True comma] show ?thesis
        by (subst parseLoop.simps) (simp add: dr substring_empty)
    next
      case other
      with True "1.prems" "1.IH"(3) [OF True other] show ?thesis
        by (subst parseLoop.simps) (auto simp add: dr step)
    qed
  qed
qed

lemma parseLine_fieldsOf: "parseLine line = fieldsOf [] False line"
  using parseLoop_fieldsOf [of 0 0 line False "[]"]
  by (simp add: parseLine_def substring_empty)

lemma fieldsOf_quoted:
  "fieldsOf cur True (escapeQuotes f @ DQUOTE # rest)
   = fieldsOf (cur @ escapeQuotes f @ [DQUOTE]) False rest"
  by (induction f arbitrary: cur) auto

lemma fieldsOf_plain:
  "CHR '','' \<notin> set f \<Longrightarrow> DQUOTE \<notin> set f
   \<Longrightarrow> fieldsOf cur inQuotes (f @ rest) = fieldsOf (cur @ f) inQuotes rest"
  by (induction f arbitrary: cur) auto

lemma replaceDoubledQuotes_other:
  "c \<noteq> DQUOTE \<Longrightarrow> replaceDoubledQuotes (c # s) = c # replaceDoubledQuotes s"
  by (cases s) auto

lemma replaceDoubledQuotes_escapeQuotes: "replaceDoubledQuotes (escapeQuotes f) = f"
  by (induction f) (auto simp: replaceDoubledQuotes_other)

lemma encodeField_cases:
  obtains (quoted) "encodeField (q, f) = DQUOTE # escapeQuotes f @ [DQUOTE]"
  | (plain) "encodeField (q, f) = f" "CHR '','' \<notin> set f" "DQUOTE \<notin> set f"
  by (cases "q \<or> CHR '','' \<in> set f \<or> DQUOTE \<in> set f \<or> LF \<in> set f")
    (simp_all add: encodeField_def)

lemma unquote_encodeField: "unquote (encodeField (q, f)) = f"
proof (cases q f rule: encodeField_cases)
  case quoted
  then show ?thesis
    by (simp add: unquote_def startsWithQuote_def endsWithQuote_def substring_def
        replaceDoubledQuotes_escapeQuotes)
next
  case plain
  then have "\<not> startsWithQuote f"
    by (auto simp: startsWithQuote_def split: list.splits)
  with plain show ?thesis by (simp add: unquote_def)
qed

lemma fieldsOf_encodeField:
  "fieldsOf [] False (encodeField (q, f) @ rest) = fieldsOf (encodeField (q, f)) False rest"
proof (cases q f rule: encodeField_cases)
  case quoted
  show ?thesis
    using fieldsOf_quoted [of "[DQUOTE]" f rest] by (simp add: quoted)
next
  case plain
  then show ?thesis
    using fieldsOf_plain [of f "[]" False rest] by simp
qed

lemma fieldsOf_encodeLine:
  "cells \<noteq> [] \<Longrightarrow> fieldsOf [] False (encodeLine cells) = map snd cells"
proof (induction cells rule: induct_list012)
  case 1
  then show ?case by simp
next
  case (2 cl)
  obtain q f where cl: "cl = (q, f)" by (cases cl)
  show ?case
    using fieldsOf_encodeField [of q f "[]"] by (simp add: cl encodeLine_def unquote_encodeField)
next
  case (3 cl g gs)
  obtain q f where cl: "cl = (q, f)" by (cases cl)
  from 3 have "fieldsOf [] False (encodeLine (g # gs)) = map snd (g # gs)" by simp
  then show ?case
    using fieldsOf_encodeField [of q f "CHR '','' # encodeLine (g # gs)"]
    by (simp add: cl encodeLine_def unquote_encodeField)
qed

text \<open>Within a line, decoding undoes encoding, whatever the fields hold.\<close>

lemma parseLine_encodeLine: "cells \<noteq> [] \<Longrightarrow> parseLine (encodeLine cells) = map snd cells"
  by (simp add: parseLine_fieldsOf fieldsOf_encodeLine)

lemma splitChar_single: "d \<notin> set p \<Longrightarrow> splitChar d p = [p]"
  by (induction p) (auto simp: prependToFirst_def)

lemma splitChar_first: "d \<notin> set p \<Longrightarrow> splitChar d (p @ d # s) = p # splitChar d s"
  by (induction p) (auto simp: prependToFirst_def)

lemma splitChar_joinWith:
  "ls \<noteq> [] \<Longrightarrow> \<forall>l\<in>set ls. d \<notin> set l \<Longrightarrow> splitChar d (joinWith d ls) = ls"
  by (induction ls rule: induct_list012) (auto simp: splitChar_single splitChar_first)

lemma set_escapeQuotes: "set (escapeQuotes f) = set f"
  by (induction f) auto

lemma set_encodeField: "set (encodeField (q, f)) \<subseteq> insert DQUOTE (set f)"
  by (auto simp: encodeField_def set_escapeQuotes)

lemma set_joinWith: "set (joinWith sep xs) \<subseteq> insert sep (\<Union> (set ` set xs))"
  by (induction xs rule: induct_list012) auto

lemma LF_not_in_encodeLine:
  assumes "\<forall>cl\<in>set cells. LF \<notin> set (snd cl)"
  shows "LF \<notin> set (encodeLine cells)"
proof
  assume "LF \<in> set (encodeLine cells)"
  with set_joinWith [of "CHR '',''" "map encodeField cells"]
  have "LF = CHR '','' \<or> (\<exists>cl\<in>set cells. LF \<in> set (encodeField cl))"
    by (auto simp: encodeLine_def)
  then obtain cl where cl: "cl \<in> set cells" "LF \<in> set (encodeField cl)"
    by (auto simp: LF_def)
  obtain q f where qf: "cl = (q, f)" by (cases cl)
  with cl set_encodeField [of q f] have "LF = DQUOTE \<or> LF \<in> set f" by auto
  with assms cl qf show False by (auto simp: LF_def DQUOTE_def)
qed

lemma joinWith_eq_Nil: "joinWith sep xs = [] \<Longrightarrow> xs = [] \<or> xs = [[]]"
  by (induction xs rule: induct_list012) auto

text \<open>No piece of a split holds the separator, and no field of a line a character the
  line does not hold.\<close>

lemma splitChar_nonempty: "splitChar d s \<noteq> []"
  by (induction s) (auto simp: prependToFirst_def split: list.splits)

lemma splitChar_no_separator: "l \<in> set (splitChar d s) \<Longrightarrow> d \<notin> set l"
proof (induction s arbitrary: l)
  case Nil
  then show ?case by simp
next
  case (Cons c s)
  show ?case
  proof (cases "c = d")
    case True
    with Cons show ?thesis by auto
  next
    case False
    obtain p ps where p: "splitChar d s = p # ps"
      using splitChar_nonempty [of d s] by (cases "splitChar d s") simp_all
    with False Cons.prems have "l = c # p \<or> l \<in> set ps"
      by (auto simp: prependToFirst_def)
    with False p Cons.IH [of p] Cons.IH [of l] show ?thesis by auto
  qed
qed

lemma set_replaceDoubledQuotes: "set (replaceDoubledQuotes s) \<subseteq> set s"
  by (induction s rule: replaceDoubledQuotes.induct) auto

lemma set_unquote: "set (unquote f) \<subseteq> set f"
proof (cases "startsWithQuote f \<and> endsWithQuote f")
  case True
  have "set (substring f 1 (length f - 1)) \<subseteq> set f"
    unfolding substring_def Let_def
    by (meson set_take_subset set_drop_subset subset_trans)
  with True set_replaceDoubledQuotes [of "substring f 1 (length f - 1)"] show ?thesis
    by (auto simp: unquote_def)
next
  case False
  then show ?thesis by (auto simp: unquote_def)
qed

lemma set_fieldsOf: "f \<in> set (fieldsOf cur inQuotes s) \<Longrightarrow> set f \<subseteq> set cur \<union> set s"
proof (induction s arbitrary: cur inQuotes)
  case Nil
  with set_unquote [of cur] show ?case by auto
next
  case (Cons c s)
  consider (quote) "c = DQUOTE"
    | (comma) "c \<noteq> DQUOTE" "c = CHR '','' \<and> \<not> inQuotes"
    | (other) "c \<noteq> DQUOTE" "\<not> (c = CHR '','' \<and> \<not> inQuotes)"
    by blast
  then show ?case
  proof cases
    case quote
    with Cons.prems have "f \<in> set (fieldsOf (cur @ [c]) (\<not> inQuotes) s)" by simp
    from Cons.IH [OF this] show ?thesis by auto
  next
    case comma
    with Cons.prems have "f = unquote cur \<or> f \<in> set (fieldsOf [] inQuotes s)" by auto
    with set_unquote [of cur] Cons.IH [of "[]" inQuotes] show ?thesis by auto
  next
    case other
    with Cons.prems have "f \<in> set (fieldsOf (cur @ [c]) inQuotes s)" by auto
    from Cons.IH [OF this] show ?thesis by auto
  qed
qed

lemma set_parseLine: "f \<in> set (parseLine line) \<Longrightarrow> set f \<subseteq> set line"
  using set_fieldsOf [of f "[]" False line] by (simp add: parseLine_fieldsOf)

text \<open>What a row holds after the loop over the headers.\<close>

lemma fillRow_None:
  "(fillRow hs values i row name = None)
   = (row name = None \<and> (name \<notin> set hs \<or> name = ''__proto__''))"
  by (induction hs arbitrary: i row) (auto simp: setProp_def)

lemma fillRow_absent: "name \<notin> set hs \<Longrightarrow> fillRow hs values i row name = row name"
  by (induction hs arbitrary: i row) (auto simp: setProp_def)

lemma fillRow_last:
  "j < length hs \<Longrightarrow> hs ! j \<noteq> ''__proto__'' \<Longrightarrow> hs ! j \<notin> set (drop (Suc j) hs) \<Longrightarrow>
   fillRow hs values i row (hs ! j)
   = Some (if i + j < length values \<and> values ! (i + j) \<noteq> [] then values ! (i + j) else [])"
proof (induction hs arbitrary: i row j)
  case Nil
  then show ?case by simp
next
  case (Cons h hs)
  show ?case
  proof (cases j)
    case 0
    with Cons.prems have "h \<notin> set hs" "h \<noteq> ''__proto__''" by simp_all
    with 0 show ?thesis by (simp add: fillRow_absent setProp_def)
  next
    case (Suc k)
    with Cons.prems have "k < length hs" "hs ! k \<noteq> ''__proto__''" "hs ! k \<notin> set (drop (Suc k) hs)"
      by simp_all
    from Cons.IH [OF this, of "i + 1"] Suc show ?thesis by simp
  qed
qed

lemma fillRow_value:
  "fillRow hs values i row name = Some v \<Longrightarrow> v \<in> set values \<or> v = [] \<or> row name = Some v"
proof (induction hs arbitrary: i row)
  case Nil
  then show ?case by simp
next
  case (Cons h hs)
  let ?v = "if i < length values \<and> values ! i \<noteq> [] then values ! i else []"
  from Cons.prems have "fillRow hs values (i + 1) (setProp row h ?v) name = Some v"
    by simp
  from Cons.IH [OF this] have "v \<in> set values \<or> v = [] \<or> setProp row h ?v name = Some v" .
  moreover have "?v \<in> set values \<or> ?v = []" by simp
  ultimately show ?case by (auto simp: setProp_def split: if_splits)
qed

lemma makeRow_value: "makeRow hs values name = Some v \<Longrightarrow> v \<in> set values \<or> v = []"
  using fillRow_value [of hs "values" 0 "Map.empty" name v] by (simp add: makeRow_def)

text \<open>The decoder reads line by line, whatever the text.\<close>

lemma parseCSV_lines:
  "parseCSV csvText =
     (case filter (\<lambda>l. trim l \<noteq> []) (splitChar LF csvText) of
        [] \<Rightarrow> \<lparr>columns = [], data = []\<rparr>
      | l0 # rest \<Rightarrow>
          \<lparr>columns = parseLine l0,
           data = map (\<lambda>line. makeRow (parseLine l0) (parseLine line)) rest\<rparr>)"
proof (cases "csvText = []")
  case True
  then show ?thesis by (simp add: parseCSV_def trim_def)
next
  case False
  then show ?thesis by (simp add: parseCSV_def Let_def split: list.split)
qed

lemma parseCSV_no_newline:
  "(\<forall>c\<in>set (columns (parseCSV csvText)). LF \<notin> set c)
   \<and> (\<forall>row\<in>set (data (parseCSV csvText)). \<forall>name v. row name = Some v \<longrightarrow> LF \<notin> set v)
   \<and> length (data (parseCSV csvText))
     = length (filter (\<lambda>l. trim l \<noteq> []) (splitChar LF csvText)) - 1"
proof (cases "filter (\<lambda>l. trim l \<noteq> []) (splitChar LF csvText)")
  case Nil
  then show ?thesis by (simp add: parseCSV_lines)
next
  case (Cons l0 rest)
  have lines: "LF \<notin> set l" if "l \<in> set (l0 # rest)" for l
  proof -
    from that Cons have "l \<in> set (splitChar LF csvText)"
      by (metis filter_is_subset subsetD)
    then show ?thesis by (rule splitChar_no_separator)
  qed
  have field: "LF \<notin> set f" if "l \<in> set (l0 # rest)" "f \<in> set (parseLine l)" for l f
    using lines [OF that(1)] set_parseLine [OF that(2)] by auto
  have cols: "\<forall>c\<in>set (columns (parseCSV csvText)). LF \<notin> set c"
    using field [of l0] by (simp add: parseCSV_lines Cons)
  have cells: "\<forall>row\<in>set (data (parseCSV csvText)). \<forall>name v. row name = Some v \<longrightarrow> LF \<notin> set v"
  proof (intro ballI allI impI)
    fix row name v
    assume "row \<in> set (data (parseCSV csvText))" and v: "row name = Some v"
    then obtain line where line: "line \<in> set rest" "row = makeRow (parseLine l0) (parseLine line)"
      by (auto simp: parseCSV_lines Cons)
    with v makeRow_value [of "parseLine l0" "parseLine line" name v]
    have "v \<in> set (parseLine line) \<or> v = []" by simp
    with field [of line v] line show "LF \<notin> set v" by auto
  qed
  have count: "length (data (parseCSV csvText))
      = length (filter (\<lambda>l. trim l \<noteq> []) (splitChar LF csvText)) - 1"
    by (simp add: parseCSV_lines Cons)
  from cols cells count show ?thesis by blast
qed

lemma parseCSV_encodeText:
  assumes fields: "\<forall>r\<in>set (header # rows). \<forall>cl\<in>set r. LF \<notin> set (snd cl)"
    and nonblank: "\<forall>r\<in>set (header # rows). trim (encodeLine r) \<noteq> []"
  shows "parseCSV (encodeText (header # rows))
         = \<lparr>columns = map snd header,
            data = map (\<lambda>r. makeRow (map snd header) (map snd r)) rows\<rparr>"
proof -
  let ?lines = "encodeLine header # map encodeLine rows"
  have noLF: "\<forall>l\<in>set ?lines. LF \<notin> set l"
    using fields LF_not_in_encodeLine by auto
  have split: "splitChar LF (encodeText (header # rows)) = ?lines"
    using splitChar_joinWith [of ?lines LF] noLF by (simp add: encodeText_def)
  have keep: "filter (\<lambda>l. trim l \<noteq> []) ?lines = ?lines"
    unfolding filter_id_conv using nonblank by auto
  have nonempty: "\<forall>r\<in>set (header # rows). r \<noteq> []"
    using nonblank by (auto simp: encodeLine_def trim_def)
  have hdr: "parseLine (encodeLine header) = map snd header"
    using nonempty by (simp add: parseLine_encodeLine)
  have rs: "\<forall>r\<in>set rows. makeRow (map snd header) (parseLine (encodeLine r))
      = makeRow (map snd header) (map snd r)"
    using nonempty by (simp add: parseLine_encodeLine)
  show ?thesis
    by (simp add: parseCSV_lines split keep hdr rs del: filter.simps)
qed

text \<open>
  C1, as the code has it. \<open>parseCSV\<close> cuts the text at every newline before it looks at
  quotes. So for every text no column name and no cell it returns holds a newline, and
  there is one row for each line after the first that is not blank. For a header and
  rows whose fields hold no newline and whose lines are not blank, it decodes the
  written text, however the writer chose to quote: the columns are the header's
  fields, there is one row per written row, a row has a property for each header name
  but \<open>__proto__\<close> and no other, and under a name it holds the field at the position of
  the name's last occurrence in the header, empty past the end of the row.
\<close>

theorem parseCSV_rows_end_at_newlines:
  "(\<forall>c\<in>set (columns (parseCSV csvText)). LF \<notin> set c)
   \<and> (\<forall>row\<in>set (data (parseCSV csvText)). \<forall>name v. row name = Some v \<longrightarrow> LF \<notin> set v)
   \<and> length (data (parseCSV csvText))
     = length (filter (\<lambda>l. trim l \<noteq> []) (splitChar LF csvText)) - 1
   \<and> ((\<forall>r\<in>set (header # rows). \<forall>cl\<in>set r. LF \<notin> set (snd cl))
       \<and> (\<forall>r\<in>set (header # rows). trim (encodeLine r) \<noteq> [])
      \<longrightarrow> columns (parseCSV (encodeText (header # rows))) = map snd header
          \<and> length (data (parseCSV (encodeText (header # rows)))) = length rows
          \<and> (\<forall>i<length rows. \<forall>name.
                ((data (parseCSV (encodeText (header # rows))) ! i) name = None)
                = (name \<notin> set (map snd header) \<or> name = ''__proto__''))
          \<and> (\<forall>i<length rows. \<forall>j<length header.
                snd (header ! j) \<noteq> ''__proto__''
                \<and> snd (header ! j) \<notin> set (drop (Suc j) (map snd header))
                \<longrightarrow> (data (parseCSV (encodeText (header # rows))) ! i) (snd (header ! j))
                    = Some (fieldAt (rows ! i) j)))"
  (is "?cols \<and> ?cells \<and> ?count \<and> (?fields \<and> ?nonblank \<longrightarrow> ?C \<and> ?L \<and> ?N \<and> ?V)")
proof -
  note general = parseCSV_no_newline [of csvText]
  have written: "?fields \<and> ?nonblank \<longrightarrow> ?C \<and> ?L \<and> ?N \<and> ?V"
  proof (rule impI)
    assume hyps: "?fields \<and> ?nonblank"
    note decoded = parseCSV_encodeText [OF conjunct1 [OF hyps] conjunct2 [OF hyps]]
    have row: "data (parseCSV (encodeText (header # rows))) ! i
        = makeRow (map snd header) (map snd (rows ! i))" if "i < length rows" for i
      using that by (simp add: decoded)
    have C: ?C and L: ?L
      by (simp_all add: decoded)
    have N: ?N
    proof (intro allI impI)
      fix i name
      assume "i < length rows"
      then show "((data (parseCSV (encodeText (header # rows))) ! i) name = None)
          = (name \<notin> set (map snd header) \<or> name = ''__proto__'')"
        by (simp add: row makeRow_def fillRow_None)
    qed
    have V: ?V
    proof (intro allI impI)
      fix i j
      assume i: "i < length rows" and j: "j < length header"
        and last: "snd (header ! j) \<noteq> ''__proto__''
          \<and> snd (header ! j) \<notin> set (drop (Suc j) (map snd header))"
      from j last
      have "fillRow (map snd header) (map snd (rows ! i)) 0 Map.empty (snd (header ! j))
          = Some (fieldAt (rows ! i) j)"
        using fillRow_last [of j "map snd header" "map snd (rows ! i)" 0 "Map.empty"]
        by (auto simp: fieldAt_def)
      then show "(data (parseCSV (encodeText (header # rows))) ! i) (snd (header ! j))
          = Some (fieldAt (rows ! i) j)"
        unfolding row [OF i] makeRow_def .
    qed
    show "?C \<and> ?L \<and> ?N \<and> ?V"
      by (rule conjI [OF C conjI [OF L conjI [OF N V]]])
  qed
  show ?thesis
    by (rule conjI [OF conjunct1 [OF general]
          conjI [OF conjunct1 [OF conjunct2 [OF general]]
            conjI [OF conjunct2 [OF conjunct2 [OF general]] written]]])
qed

theorem parseCSV_rows_end_at_newlines_witness:
  \<open>encodeText [[(False, ''id''), (True, ''note'')],
               [(False, ''1''), (False, ''a,b'')],
               [(True, ''2''), (False, ''say "hi"'')]]
     = ''id,"note"\<newline>1,"a,b"\<newline>"2","say ""hi"""''
   \<and> columns (parseCSV ''id,"note"\<newline>1,"a,b"\<newline>"2","say ""hi"""'') = [''id'', ''note'']
   \<and> length (data (parseCSV ''id,"note"\<newline>1,"a,b"\<newline>"2","say ""hi"""'')) = 2
   \<and> (data (parseCSV ''id,"note"\<newline>1,"a,b"\<newline>"2","say ""hi"""'') ! 0) ''note'' = Some ''a,b''
   \<and> (data (parseCSV ''id,"note"\<newline>1,"a,b"\<newline>"2","say ""hi"""'') ! 1) ''note''
     = Some ''say "hi"''
   \<and> (data (parseCSV ''id,"note"\<newline>1,"a,b"\<newline>"2","say ""hi"""'') ! 1) ''other'' = None\<close>
proof -
  let ?header = "[(False, ''id''), (True, ''note'')]"
  let ?rows = \<open>[[(False, ''1''), (False, ''a,b'')], [(True, ''2''), (False, ''say "hi"'')]]\<close>
  let ?text = \<open>''id,"note"\<newline>1,"a,b"\<newline>"2","say ""hi"""''\<close>
  have enc: "encodeText (?header # ?rows) = ?text"
    by code_simp
  have fields: "\<forall>r\<in>set (?header # ?rows). \<forall>cl\<in>set r. LF \<notin> set (snd cl)"
    by (simp add: LF_def)
  have nonblank: "\<forall>r\<in>set (?header # ?rows). trim (encodeLine r) \<noteq> []"
    by (simp add: encodeLine_def encodeField_def trim_def isSpace_def LF_def DQUOTE_def)
  note all = parseCSV_rows_end_at_newlines [of ?text ?header ?rows]
  note written = mp [OF conjunct2 [OF conjunct2 [OF conjunct2 [OF all]]] conjI [OF fields nonblank]]
  note names = conjunct1 [OF conjunct2 [OF conjunct2 [OF written]]]
  note cells = conjunct2 [OF conjunct2 [OF conjunct2 [OF written]]]
  have cols: "columns (parseCSV ?text) = [''id'', ''note'']"
    using conjunct1 [OF written] unfolding enc by simp
  have len: "length (data (parseCSV ?text)) = 2"
    using conjunct1 [OF conjunct2 [OF written]] unfolding enc by simp
  have i0: "0 < length ?rows" and i1: "1 < length ?rows" and j1: "1 < length ?header"
    by simp_all
  have last: "snd (?header ! 1) \<noteq> ''__proto__''
      \<and> snd (?header ! 1) \<notin> set (drop (Suc 1) (map snd ?header))"
    by simp
  have c0: "(data (parseCSV ?text) ! 0) ''note'' = Some ''a,b''"
    using cells [rule_format, OF i0 j1 last] unfolding enc by (simp add: fieldAt_def)
  have c1: \<open>(data (parseCSV ?text) ! 1) ''note'' = Some ''say "hi"''\<close>
    using cells [rule_format, OF i1 j1 last] unfolding enc by (simp add: fieldAt_def)
  have c2: "(data (parseCSV ?text) ! 1) ''other'' = None"
    using names [rule_format, OF i1, of "''other''"] unfolding enc by simp
  show ?thesis
    by (intro conjI) (rule enc cols len c0 c1 c2)+
qed

text \<open>
  C1, as stated, fails: the header \<open>h\<close> and one row whose field is \<open>a\<close>, newline, \<open>b\<close>
  are written as two lines after the header, and \<open>parseCSV\<close> reads two rows, the halves
  of the field with the quote left on each.
\<close>

theorem quoted_newline_splits_the_row:
  \<open>encodeText [[(False, ''h'')], [(False, ''a\<newline>b'')]] = ''h\<newline>"a\<newline>b"''
   \<and> columns (parseCSV ''h\<newline>"a\<newline>b"'') = [''h'']
   \<and> length (data (parseCSV ''h\<newline>"a\<newline>b"'')) = 2
   \<and> (data (parseCSV ''h\<newline>"a\<newline>b"'') ! 0) ''h'' = Some ''"a''
   \<and> (data (parseCSV ''h\<newline>"a\<newline>b"'') ! 1) ''h'' = Some ''b"''\<close>
  by code_simp


section \<open>Properties of the Evidence Locator\<close>

lemma getFlexibleRegex_short: "length highlight < 2 \<Longrightarrow> getFlexibleRegex highlight = None"
  by (simp add: getFlexibleRegex_def)

text \<open>
  The strategies are reached in their order and in no other: the effect stops after
  strategy 1 or after strategy 2, or goes on to the call of the fallback. On a closed
  sidebar, an empty phrase or an HTML document it reaches none.
\<close>

lemma locate_attempts_in_order:
  "attempted (locate mark renderPreview isOpen viewMode doc highlight)
   \<in> {[], [ExactMatch], [ExactMatch, WordSequence], [ExactMatch, WordSequence, LooseFallback]}"
  by (simp add: locate_def Let_def split: option.splits)

lemma locate_guard:
  "\<not> isOpen \<or> highlight = [] \<or> isHtmlDoc doc
   \<Longrightarrow> locate mark renderPreview isOpen viewMode doc highlight
       = \<lparr>attempted = [], spans = [], raised = None\<rparr>"
  by (auto simp: locate_def)

lemma locate_stops_at_exact:
  "isOpen \<Longrightarrow> highlight \<noteq> [] \<Longrightarrow> \<not> isHtmlDoc doc
   \<Longrightarrow> mark highlight (contentText renderPreview viewMode doc) \<noteq> []
   \<Longrightarrow> locate mark renderPreview isOpen viewMode doc highlight
       = \<lparr>attempted = [ExactMatch],
          spans = mark highlight (contentText renderPreview viewMode doc),
          raised = None\<rparr>"
  by (simp add: locate_def Let_def)

lemma locate_fallback_only_after_both:
  "LooseFallback \<in> set (attempted (locate mark renderPreview isOpen viewMode doc highlight))
   \<Longrightarrow> mark highlight (contentText renderPreview viewMode doc) = []
       \<and> (\<exists>regex. getFlexibleRegex highlight = Some regex
              \<and> markRegExp regex (contentText renderPreview viewMode doc) = [])"
  by (auto simp: locate_def Let_def split: option.splits if_splits)

lemma getFlexibleRegex_nonempty: "getFlexibleRegex highlight = Some regex \<Longrightarrow> highlight \<noteq> []"
  by (auto simp: getFlexibleRegex_def)

lemma locate_fallback_raises:
  assumes "isOpen" and "\<not> isHtmlDoc doc"
    and "mark highlight (contentText renderPreview viewMode doc) = []"
    and "getFlexibleRegex highlight = Some regex"
    and "markRegExp regex (contentText renderPreview viewMode doc) = []"
  shows "locate mark renderPreview isOpen viewMode doc highlight
       = \<lparr>attempted = [ExactMatch, WordSequence, LooseFallback], spans = [],
          raised = Some (ReferenceError ''getPreviewRegex'')\<rparr>"
  using assms getFlexibleRegex_nonempty [OF assms(4)] by (simp add: locate_def)

text \<open>
  C2, as the code has it. The test on the length of the phrase sits in
  \<open>getFlexibleRegex\<close>, so it guards strategies 2 and 3 only. For a phrase of fewer than
  two characters neither of them is attempted. The empty phrase attempts no match and
  yields no span, and so does any phrase on a closed sidebar or an HTML document. A
  phrase of one character, on an open sidebar showing a document that is not HTML, is
  still searched by strategy 1 in the text of the content element, and the spans are
  those strategy 1 finds.
\<close>

theorem short_phrase_skips_word_sequence_only:
  "length highlight < 2 \<Longrightarrow>
   locate mark renderPreview isOpen viewMode doc highlight
   = (if isOpen \<and> highlight \<noteq> [] \<and> \<not> isHtmlDoc doc
      then \<lparr>attempted = [ExactMatch],
            spans = mark highlight (contentText renderPreview viewMode doc),
            raised = None\<rparr>
      else \<lparr>attempted = [], spans = [], raised = None\<rparr>)"
  by (simp add: locate_def Let_def getFlexibleRegex_short)

theorem short_phrase_skips_word_sequence_only_witness:
  "length ''x'' < 2
   \<and> locate markExact id True Source ''x'' ''x''
     = \<lparr>attempted = [ExactMatch], spans = [(0, 1)], raised = None\<rparr>
   \<and> locate markExact id True Source ''<html>x</html>'' ''x''
     = \<lparr>attempted = [], spans = [], raised = None\<rparr>
   \<and> locate markExact id True Source ''x'' [] = \<lparr>attempted = [], spans = [], raised = None\<rparr>"
proof -
  have short: "length ''x'' < 2" "length ([] :: string) < 2" by simp_all
  have plain: "\<not> isHtmlDoc ''x''" by code_simp
  have html: "isHtmlDoc ''<html>x</html>''" by code_simp
  have found: "markExact ''x'' (contentText id Source ''x'') = [(0, 1)]" by code_simp
  from short_phrase_skips_word_sequence_only [OF short(1), of markExact id True Source "''x''"]
    plain found
  have one: "locate markExact id True Source ''x'' ''x''
      = \<lparr>attempted = [ExactMatch], spans = [(0, 1)], raised = None\<rparr>"
    by simp
  from short_phrase_skips_word_sequence_only
    [OF short(1), of markExact id True Source "''<html>x</html>''"] html
  have framed: "locate markExact id True Source ''<html>x</html>'' ''x''
      = \<lparr>attempted = [], spans = [], raised = None\<rparr>"
    by simp
  from short_phrase_skips_word_sequence_only [OF short(2), of markExact id True Source "''x''"]
  have none: "locate markExact id True Source ''x'' []
      = \<lparr>attempted = [], spans = [], raised = None\<rparr>"
    by simp
  show ?thesis
    by (rule conjI [OF short(1) conjI [OF one conjI [OF framed none]]])
qed

text \<open>
  C2, as stated, fails: the phrase \<open>x\<close> has one character, and on an open sidebar that
  shows the source of the document \<open>a x b\<close> the effect still runs strategy 1 on it and
  marks the \<open>x\<close>.
\<close>

theorem one_character_phrase_is_marked:
  "locate markExact id True Source ''a x b'' ''x''
   = \<lparr>attempted = [ExactMatch], spans = [(2, 3)], raised = None\<rparr>"
  by code_simp

text \<open>
  C3. The order of the strategies is the claimed one (\<open>locate_attempts_in_order\<close>,
  \<open>locate_fallback_only_after_both\<close>), but tier 3 produces nothing: when strategies 1
  and 2 both find no span (\<open>locate_fallback_raises\<close>), as for the phrase
  \<open>Order Master\<close> in the source view of a document without these words, the effect
  calls \<open>getPreviewRegex\<close>, which does not exist, and a ReferenceError is raised in
  place of a third search.
\<close>

theorem loose_fallback_raises_reference_error:
  "locate markExact renderPreview True Source ''no such words'' ''Order Master''
   = \<lparr>attempted = [ExactMatch, WordSequence, LooseFallback], spans = [],
      raised = Some (ReferenceError ''getPreviewRegex'')\<rparr>"
proof (rule locate_fallback_raises)
  show "True" by simp
  show "\<not> isHtmlDoc ''no such words''" by code_simp
  show "markExact ''Order Master'' (contentText renderPreview Source ''no such words'') = []"
    unfolding contentText_def by code_simp
  show "getFlexibleRegex ''Order Master'' = Some [''Order'', ''Master'']" by code_simp
  show "markRegExp [''Order'', ''Master''] (contentText renderPreview Source ''no such words'') = []"
    unfolding contentText_def by code_simp
qed

text \<open>
  C8. The phrase \<open>Order Master\<close> is not a substring of \<open>See Order|Master table\<close>, so
  the exact search finds nothing. \<open>getFlexibleRegex\<close> splits the phrase at the runs of
  characters outside \<open>[a-zA-Z0-9_]\<close> into the words \<open>Order\<close> and \<open>Master\<close>, joined by
  \<open>[\W_]+\<close>; the expression matches \<open>Order|Master\<close> at offsets 4 to 16, ignoring case
  and over any run of separators. Whenever strategy 1 finds nothing here, the effect,
  on an open sidebar showing the source of this document, stops at strategy 2 with
  that span.
\<close>

theorem order_master_found_by_word_sequence:
  "markExact ''Order Master'' ''See Order|Master table'' = []
   \<and> getFlexibleRegex ''Order Master'' = Some [''Order'', ''Master'']
   \<and> markRegExp [''Order'', ''Master''] ''See Order|Master table'' = [(4, 16)]
   \<and> markRegExp [''Order'', ''Master''] ''see ORDER | master table'' = [(4, 18)]
   \<and> (mark ''Order Master'' ''See Order|Master table'' = []
      \<longrightarrow> locate mark renderPreview True Source ''See Order|Master table'' ''Order Master''
          = \<lparr>attempted = [ExactMatch, WordSequence], spans = [(4, 16)], raised = None\<rparr>)"
proof -
  have exact: "markExact ''Order Master'' ''See Order|Master table'' = []"
    by code_simp
  have regex: "getFlexibleRegex ''Order Master'' = Some [''Order'', ''Master'']"
    by code_simp
  have found: "markRegExp [''Order'', ''Master''] ''See Order|Master table'' = [(4, 16)]"
    by code_simp
  have folded: "markRegExp [''Order'', ''Master''] ''see ORDER | master table'' = [(4, 18)]"
    by code_simp
  have plain: "\<not> isHtmlDoc ''See Order|Master table''"
    by code_simp
  have shown: "contentText renderPreview Source ''See Order|Master table''
      = ''See Order|Master table''"
    by (simp add: contentText_def)
  have stops: "mark ''Order Master'' ''See Order|Master table'' = []
      \<longrightarrow> locate mark renderPreview True Source ''See Order|Master table'' ''Order Master''
          = \<lparr>attempted = [ExactMatch, WordSequence], spans = [(4, 16)], raised = None\<rparr>"
    by (simp add: locate_def plain shown regex found)
  show ?thesis
    by (rule conjI [OF exact conjI [OF regex conjI [OF found conjI [OF folded stops]]]])
qed

theorem order_master_found_by_word_sequence_witness:
  "markExact ''Order Master'' ''See Order|Master table'' = []
   \<and> locate markExact id True Source ''See Order|Master table'' ''Order Master''
     = \<lparr>attempted = [ExactMatch, WordSequence], spans = [(4, 16)], raised = None\<rparr>"
proof -
  note all = order_master_found_by_word_sequence [of markExact id]
  note exact = conjunct1 [OF all]
  note stops = conjunct2 [OF conjunct2 [OF conjunct2 [OF conjunct2 [OF all]]]]
  show ?thesis
    by (rule conjI [OF exact mp [OF stops exact]])
qed


section \<open>Properties of the stage statuses\<close>

lemma applyLog_converting:
  "converting (applyLog log s) =
     (if includesText log ''Converted'' then Completed
      else if includesText log ''Converting documents'' then Active else converting s)"
  by (simp add: applyLog_def Let_def)

lemma applyLog_analyzing:
  "analyzing (applyLog log s) =
     (if includesText log ''Content fits'' \<or> includesText log ''Content too large''
      then Completed
      else if includesText log ''Analyzing content'' then Active else analyzing s)"
  by (simp add: applyLog_def Let_def)

lemma applyLog_processing:
  "processing (applyLog log s) =
     (if includesText log ''process completed'' \<or> includesText log ''Response saved''
      then Completed
      else if includesText log ''Calling LLM'' \<or> includesText log ''Starting iterative agent''
      then Active
      else processing s)"
  by (simp add: applyLog_def Let_def)

lemma rank_le_2: "rank s \<le> 2"
  by (cases s) simp_all

lemma stageStatuses_snoc: "stageStatuses (logs @ [log]) = applyLog log (stageStatuses logs)"
  by (simp add: stageStatuses_def)

text \<open>
  C5, as the code has it. The effect replays the logs and lets every marker assign its
  status, with no test of the status already reached. A stage never returns to
  waiting, and its status does not decrease across a log unless that log holds the
  start marker of the stage without a completion marker of it; such a log sets the
  stage to active.
\<close>

theorem stage_status_decreases_only_on_start_marker:
  "(converting (stageStatuses logs) \<noteq> Waiting
      \<longrightarrow> converting (stageStatuses (logs @ [log])) \<noteq> Waiting)
   \<and> (analyzing (stageStatuses logs) \<noteq> Waiting
      \<longrightarrow> analyzing (stageStatuses (logs @ [log])) \<noteq> Waiting)
   \<and> (processing (stageStatuses logs) \<noteq> Waiting
      \<longrightarrow> processing (stageStatuses (logs @ [log])) \<noteq> Waiting)
   \<and> (if includesText log ''Converting documents'' \<and> \<not> includesText log ''Converted''
      then converting (stageStatuses (logs @ [log])) = Active
      else rank (converting (stageStatuses logs))
           \<le> rank (converting (stageStatuses (logs @ [log]))))
   \<and> (if includesText log ''Analyzing content''
         \<and> \<not> (includesText log ''Content fits'' \<or> includesText log ''Content too large'')
      then analyzing (stageStatuses (logs @ [log])) = Active
      else rank (analyzing (stageStatuses logs))
           \<le> rank (analyzing (stageStatuses (logs @ [log]))))
   \<and> (if (includesText log ''Calling LLM'' \<or> includesText log ''Starting iterative agent'')
         \<and> \<not> (includesText log ''process completed'' \<or> includesText log ''Response saved'')
      then processing (stageStatuses (logs @ [log])) = Active
      else rank (processing (stageStatuses logs))
           \<le> rank (processing (stageStatuses (logs @ [log]))))"
proof (intro conjI)
  show "converting (stageStatuses logs) \<noteq> Waiting
      \<longrightarrow> converting (stageStatuses (logs @ [log])) \<noteq> Waiting"
    by (simp add: stageStatuses_snoc applyLog_converting)
  show "analyzing (stageStatuses logs) \<noteq> Waiting
      \<longrightarrow> analyzing (stageStatuses (logs @ [log])) \<noteq> Waiting"
    by (simp add: stageStatuses_snoc applyLog_analyzing)
  show "processing (stageStatuses logs) \<noteq> Waiting
      \<longrightarrow> processing (stageStatuses (logs @ [log])) \<noteq> Waiting"
    by (simp add: stageStatuses_snoc applyLog_processing)
  show "if includesText log ''Converting documents'' \<and> \<not> includesText log ''Converted''
      then converting (stageStatuses (logs @ [log])) = Active
      else rank (converting (stageStatuses logs))
           \<le> rank (converting (stageStatuses (logs @ [log])))"
    by (simp add: stageStatuses_snoc applyLog_converting rank_le_2)
  show "if includesText log ''Analyzing content''
         \<and> \<not> (includesText log ''Content fits'' \<or> includesText log ''Content too large'')
      then analyzing (stageStatuses (logs @ [log])) = Active
      else rank (analyzing (stageStatuses logs))
           \<le> rank (analyzing (stageStatuses (logs @ [log])))"
    by (simp add: stageStatuses_snoc applyLog_analyzing rank_le_2)
  show "if (includesText log ''Calling LLM'' \<or> includesText log ''Starting iterative agent'')
         \<and> \<not> (includesText log ''process completed'' \<or> includesText log ''Response saved'')
      then processing (stageStatuses (logs @ [log])) = Active
      else rank (processing (stageStatuses logs))
           \<le> rank (processing (stageStatuses (logs @ [log])))"
    by (simp add: stageStatuses_snoc applyLog_processing rank_le_2)
qed

theorem stage_status_decreases_only_on_start_marker_witness:
  "converting (stageStatuses [''Converting documents'']) \<noteq> Waiting
   \<and> converting (stageStatuses ([''Converting documents''] @ [''Converted 3 files''])) \<noteq> Waiting
   \<and> rank (converting (stageStatuses [''Converting documents'']))
     \<le> rank (converting (stageStatuses ([''Converting documents''] @ [''Converted 3 files''])))"
proof -
  note spec = stage_status_decreases_only_on_start_marker
    [of "[''Converting documents'']" "''Converted 3 files''"]
  have started: "converting (stageStatuses [''Converting documents'']) \<noteq> Waiting"
    by code_simp
  have marker: "\<not> (includesText ''Converted 3 files'' ''Converting documents''
      \<and> \<not> includesText ''Converted 3 files'' ''Converted'')"
    by code_simp
  from spec started
  have kept: "converting (stageStatuses ([''Converting documents''] @ [''Converted 3 files'']))
      \<noteq> Waiting"
    by blast
  from spec have "if includesText ''Converted 3 files'' ''Converting documents''
        \<and> \<not> includesText ''Converted 3 files'' ''Converted''
      then converting (stageStatuses ([''Converting documents''] @ [''Converted 3 files'']))
           = Active
      else rank (converting (stageStatuses [''Converting documents'']))
           \<le> rank (converting
                (stageStatuses ([''Converting documents''] @ [''Converted 3 files''])))"
    by blast
  with marker
  have grows: "rank (converting (stageStatuses [''Converting documents'']))
      \<le> rank (converting (stageStatuses ([''Converting documents''] @ [''Converted 3 files''])))"
    by (simp only: if_False)
  from started kept grows show ?thesis by blast
qed

text \<open>
  C5, as stated, fails: after a log with the completion marker \<open>Converted\<close> the
  ingestion stage is completed, and a later log with the start marker
  \<open>Converting documents\<close> moves it back to active.
\<close>

theorem completed_stage_returns_to_active:
  "converting (stageStatuses [''Converted 3 files'']) = Completed
   \<and> converting (stageStatuses [''Converted 3 files'', ''Converting documents in docs''])
     = Active"
  by code_simp


section \<open>Properties of the stream reader\<close>

lemma splitRecords_nonempty [simp]: "splitRecords s \<noteq> []"
  by (induction s rule: splitRecords.induct) (auto simp: prependToFirst_def split: list.splits)

lemma splitRecords_step:
  "\<not> (c = LF \<and> d = LF)
   \<Longrightarrow> splitRecords (c # d # s) = prependToFirst c (splitRecords (d # s))"
  by auto

text \<open>A text that splits into one piece holds no separator: the piece is the text.\<close>

lemma splitRecords_single: "splitRecords s = [p] \<Longrightarrow> p = s"
proof (induction s arbitrary: p rule: splitRecords.induct)
  case (1 c d s)
  show ?case
  proof (cases "c = LF \<and> d = LF")
    case True
    with "1.prems" show ?thesis by simp
  next
    case False
    obtain q qs where q: "splitRecords (d # s) = q # qs"
      by (cases "splitRecords (d # s)") simp_all
    with False "1.prems" have "qs = []" "p = c # q"
      by (auto simp: prependToFirst_def)
    with q "1.IH"(2) [OF False, of q] show ?thesis by simp
  qed
qed simp_all

text \<open>
  Splitting a text that goes on: the complete records of the first part stay, and the
  scan goes on from its unterminated rest.
\<close>

lemma splitRecords_append:
  "splitRecords (s @ t) = butlast (splitRecords s) @ splitRecords (last (splitRecords s) @ t)"
proof (induction s rule: splitRecords.induct)
  case (1 c d s)
  show ?case
  proof (cases "c = LF \<and> d = LF")
    case True
    with "1.IH"(1) show ?thesis by simp
  next
    case False
    note step = splitRecords_step [OF False]
    obtain q qs where q: "splitRecords (d # s) = q # qs"
      by (cases "splitRecords (d # s)") simp_all
    show ?thesis
    proof (cases qs)
      case Nil
      with q have "q = d # s" by (simp add: splitRecords_single)
      with q Nil have "splitRecords (c # d # s) = [c # d # s]"
        by (simp add: step prependToFirst_def del: splitRecords.simps)
      then show ?thesis by (simp del: splitRecords.simps)
    next
      case (Cons r rs)
      have "splitRecords ((c # d # s) @ t) = prependToFirst c (splitRecords ((d # s) @ t))"
        by (simp add: step del: splitRecords.simps)
      also have "\<dots> = prependToFirst c (butlast (q # qs) @ splitRecords (last (q # qs) @ t))"
        using "1.IH"(2) [OF False] q by (simp del: splitRecords.simps)
      also have "\<dots> = (c # q) # butlast qs @ splitRecords (last qs @ t)"
        using Cons by (simp add: prependToFirst_def del: splitRecords.simps)
      finally show ?thesis
        using q Cons by (simp add: step prependToFirst_def del: splitRecords.simps)
    qed
  qed
qed simp_all

lemma splitRecords_last: "splitRecords (last (splitRecords s)) = [last (splitRecords s)]"
proof (induction s rule: splitRecords.induct)
  case (1 c d s)
  show ?case
  proof (cases "c = LF \<and> d = LF")
    case True
    with "1.IH"(1) show ?thesis by simp
  next
    case False
    note step = splitRecords_step [OF False]
    obtain q qs where q: "splitRecords (d # s) = q # qs"
      by (cases "splitRecords (d # s)") simp_all
    show ?thesis
    proof (cases qs)
      case Nil
      with q have "q = d # s" by (simp add: splitRecords_single)
      with q Nil have "splitRecords (c # d # s) = [c # d # s]"
        by (simp add: step prependToFirst_def del: splitRecords.simps)
      then show ?thesis by (simp del: splitRecords.simps)
    next
      case (Cons r rs)
      with q "1.IH"(2) [OF False] show ?thesis
        by (simp add: step prependToFirst_def del: splitRecords.simps)
    qed
  qed
qed simp_all

text \<open>
  The loop invariant: the buffer holds no separator, and after the chunks read so far
  the body has run on the complete records of their concatenation.
\<close>

lemma fold_readChunk:
  "splitRecords buffer = [buffer] \<Longrightarrow>
   fold (readChunk onLine) chunks (buffer, st)
   = (last (splitRecords (buffer @ concat chunks)),
      fold onLine (butlast (splitRecords (buffer @ concat chunks))) st)"
proof (induction chunks arbitrary: buffer st)
  case Nil
  then show ?case by simp
next
  case (Cons chunk chunks)
  let ?L = "splitRecords (buffer @ chunk)"
  let ?M = "splitRecords (last ?L @ concat chunks)"
  have whole: "splitRecords (buffer @ concat (chunk # chunks)) = butlast ?L @ ?M"
    using splitRecords_append [of "buffer @ chunk" "concat chunks"] by simp
  have "fold (readChunk onLine) (chunk # chunks) (buffer, st)
        = fold (readChunk onLine) chunks (last ?L, fold onLine (butlast ?L) st)"
    by (simp add: readChunk_def Let_def)
  also have "\<dots> = (last ?M, fold onLine (butlast ?M) (fold onLine (butlast ?L) st))"
    by (rule Cons.IH) (rule splitRecords_last)
  also have "\<dots> = (last (butlast ?L @ ?M), fold onLine (butlast (butlast ?L @ ?M)) st)"
    by (simp add: butlast_append)
  finally show ?case by (simp only: whole)
qed

lemma readStream_whole:
  "readStream onLine chunks st = fold onLine (butlast (splitRecords (concat chunks))) st"
  using fold_readChunk [of "[]" onLine chunks st] by (simp add: readStream_def)

text \<open>The final state is the fold of \<open>applyEvent\<close> over the events parsed, in order.\<close>

lemma fold_processLine_events:
  "fold (processLine parse) ls (fold applyEvent acc st)
   = fold applyEvent
       (fold (\<lambda>line seen.
                if prefix ''data: '' line
                then (case parse (drop 6 line) of None \<Rightarrow> seen | Some event \<Rightarrow> seen @ [event])
                else seen)
          ls acc)
       st"
proof (induction ls arbitrary: acc)
  case Nil
  show ?case by simp
next
  case (Cons l ls)
  show ?case
  proof (cases "prefix ''data: '' l")
    case False
    with Cons.IH [of acc] show ?thesis by (simp add: processLine_def)
  next
    case True
    show ?thesis
    proof (cases "parse (drop 6 l)")
      case None
      with True Cons.IH [of acc] show ?thesis by (simp add: processLine_def)
    next
      case (Some event)
      with True Cons.IH [of "acc @ [event]"] show ?thesis
        by (simp add: processLine_def)
    qed
  qed
qed

lemma handleRunStream_events:
  "handleRunStream parse chunks = fold applyEvent (eventsRead parse chunks) runStart"
  using fold_processLine_events [of parse _ "[]" runStart]
  by (simp add: handleRunStream_def eventsRead_def readStream_whole)

text \<open>
  C6. Two ways of cutting the same text into chunks, one of which may cut inside an
  event record and the other deliver every record in one piece, give the loop the same
  records, the same parsed events and the same final state.
\<close>

theorem deframing_independent_of_chunking:
  "concat chunks = concat chunks' \<Longrightarrow>
   deframe chunks = deframe chunks'
   \<and> eventsRead parse chunks = eventsRead parse chunks'
   \<and> handleRunStream parse chunks = handleRunStream parse chunks'"
  by (simp add: deframe_def eventsRead_def handleRunStream_def readStream_whole)

theorem deframing_independent_of_chunking_witness:
  "deframe [''data: a\<newline>'', ''\<newline>da'', ''ta: b\<newline>\<newline>''] = [''data: a'', ''data: b'']
   \<and> deframe [''data: a\<newline>\<newline>'', ''data: b\<newline>\<newline>''] = [''data: a'', ''data: b'']
   \<and> progress (handleRunStream (\<lambda>s. Some (Progress s))
        [''data: a\<newline>'', ''\<newline>da'', ''ta: b\<newline>\<newline>'']) = [''a'', ''b'']
   \<and> handleRunStream (\<lambda>s. Some (Progress s)) [''data: a\<newline>'', ''\<newline>da'', ''ta: b\<newline>\<newline>'']
     = handleRunStream (\<lambda>s. Some (Progress s)) [''data: a\<newline>\<newline>'', ''data: b\<newline>\<newline>'']"
proof -
  let ?cut = "[''data: a\<newline>'', ''\<newline>da'', ''ta: b\<newline>\<newline>'']"
  let ?whole = "[''data: a\<newline>\<newline>'', ''data: b\<newline>\<newline>'']"
  have same: "concat ?cut = concat ?whole" by simp
  note spec = deframing_independent_of_chunking [OF same, of "\<lambda>s. Some (Progress s)"]
  have whole: "deframe ?whole = [''data: a'', ''data: b'']" by code_simp
  have shown: "progress (handleRunStream (\<lambda>s. Some (Progress s)) ?whole) = [''a'', ''b'']"
    by code_simp
  from spec whole have cut: "deframe ?cut = [''data: a'', ''data: b'']" by simp
  from spec shown
  have shown_cut: "progress (handleRunStream (\<lambda>s. Some (Progress s)) ?cut) = [''a'', ''b'']"
    by simp
  from spec have "handleRunStream (\<lambda>s. Some (Progress s)) ?cut
      = handleRunStream (\<lambda>s. Some (Progress s)) ?whole"
    by blast
  with cut whole shown_cut show ?thesis by blast
qed


section \<open>Properties of the iteration store\<close>

text \<open>Sorting again after an append is sorting the whole: the sort is stable.\<close>

lemma sort_key_resort: "sort_key f (sort_key f xs @ [x]) = sort_key f (xs @ [x])"
proof (rule sym, rule properties_for_sort_key)
  show "mset (sort_key f (sort_key f xs @ [x])) = mset (xs @ [x])" by simp
  show "sorted (map f (sort_key f (sort_key f xs @ [x])))" by simp
  fix k
  have "filter (\<lambda>y. f k = f y) (sort_key f (sort_key f xs @ [x]))
        = filter (\<lambda>y. f y = f k) (sort_key f (sort_key f xs @ [x]))"
    by (rule filter_cong) auto
  also have "\<dots> = filter (\<lambda>y. f y = f k) (sort_key f xs @ [x])"
    by (rule sort_key_stable)
  also have "\<dots> = filter (\<lambda>y. f y = f k) (sort_key f xs) @ filter (\<lambda>y. f y = f k) [x]"
    by simp
  also have "\<dots> = filter (\<lambda>y. f y = f k) xs @ filter (\<lambda>y. f y = f k) [x]"
    by (simp only: sort_key_stable)
  also have "\<dots> = filter (\<lambda>y. f k = f y) (xs @ [x])"
    by (auto intro: filter_cong)
  finally show "filter (\<lambda>y. f k = f y) (sort_key f (sort_key f xs @ [x]))
      = filter (\<lambda>y. f k = f y) (xs @ [x])" .
qed

lemma snapshotsOf_append: "snapshotsOf (xs @ ys) = snapshotsOf xs @ snapshotsOf ys"
  by (induction xs rule: snapshotsOf.induct) auto

lemma iterationResults_fold:
  "iterationResults st = sort_key iteration (iterationResults st) \<Longrightarrow>
   iterationResults (fold applyEvent evs st)
   = sort_key iteration (iterationResults st @ snapshotsOf evs)"
proof (induction evs arbitrary: st rule: rev_induct)
  case Nil
  then show ?case by simp
next
  case (snoc e evs)
  show ?case
  proof (cases e)
    case (IterationComplete i c)
    then show ?thesis
      using snoc.IH [OF snoc.prems]
        sort_key_resort [of iteration "iterationResults st @ snapshotsOf evs"]
      by (simp add: snapshotsOf_append)
  qed (use snoc in \<open>simp_all add: snapshotsOf_append\<close>)
qed

lemma find_filter: "find P xs = (case filter P xs of [] \<Rightarrow> None | y # _ \<Rightarrow> Some y)"
  by (induction xs) auto

lemma find_sort_key: "find (\<lambda>r. f r = k) (sort_key f xs) = find (\<lambda>r. f r = k) xs"
  by (simp add: find_filter [of _ "sort_key f xs"] find_filter [of _ xs] sort_key_stable)

text \<open>
  C4, as the code has it. Every \<open>iteration_complete\<close> event appends its snapshot and the
  list is sorted again, stably; nothing is replaced. After any sequence of events of
  a run the store holds every snapshot received, ordered ascending by iteration number
  with equal numbers in arrival order, and the lookup by number that
  \<open>handleIterationSelect\<close> makes finds the snapshot received first with that number.
\<close>

theorem iteration_store_keeps_every_snapshot_sorted:
  "iterationResults (fold applyEvent evs runStart) = sort_key iteration (snapshotsOf evs)
   \<and> sorted (map iteration (iterationResults (fold applyEvent evs runStart)))
   \<and> length (iterationResults (fold applyEvent evs runStart)) = length (snapshotsOf evs)
   \<and> find (\<lambda>r. iteration r = k) (iterationResults (fold applyEvent evs runStart))
     = find (\<lambda>r. iteration r = k) (snapshotsOf evs)"
proof -
  have "iterationResults (fold applyEvent evs runStart) = sort_key iteration (snapshotsOf evs)"
    using iterationResults_fold [of runStart evs] by (simp add: runStart_def)
  then show ?thesis by (simp add: find_sort_key)
qed

text \<open>
  C4, as stated, fails: two snapshots recorded for iteration 1 are both kept, the one
  written first in front.
\<close>

theorem duplicate_iteration_is_kept:
  "map iteration (iterationResults
       (fold applyEvent [IterationComplete 1 ''first'', IterationComplete 1 ''second''] runStart))
     = [1, 1]
   \<and> map content (iterationResults
       (fold applyEvent [IterationComplete 1 ''first'', IterationComplete 1 ''second''] runStart))
     = [''first'', ''second'']"
  by (simp add: runStart_def)


section \<open>Properties of the iteration selection\<close>

lemma assignColumns_lookup:
  "assignColumns pre cols row obj key =
     (if key \<in> (\<lambda>col. pre @ col) ` set cols then Some (getProp row (drop (length pre) key))
      else obj key)"
  by (induction cols arbitrary: obj) auto

lemma gridRows_length: "length (gridRows d) = length (data (source d))"
  by (simp add: gridRows_def)

lemma gridRows_nth:
  "i < length (data (source d)) \<Longrightarrow> gridRows d ! i = gridRowAt d i (data (source d) ! i)"
  by (simp add: gridRows_def)

lemma gridRowAt_source:
  "col \<in> set (columns (source d))
   \<Longrightarrow> gridRowAt d i row (''source_'' @ col) = Some (getProp row col)"
  by (auto simp: gridRowAt_def Let_def assignColumns_lookup)

lemma gridRowAt_target:
  "col \<in> set (columns (target d)) \<Longrightarrow>
   gridRowAt d i row (''target_'' @ col)
   = Some (getProp (if i < length (data (target d)) then data (target d) ! i else Map.empty) col)"
  by (auto simp: gridRowAt_def Let_def assignColumns_lookup)

text \<open>
  C7. With a terminal result \<open>fd\<close> and a snapshot recorded for iteration \<open>k\<close>, selecting
  \<open>k\<close> shows the source of \<open>fd\<close>, unchanged, beside the decoding of the snapshot's raw
  content, and leaves the terminal result as it is. The grid has one row per source
  row; row \<open>i\<close> holds, under each source column, what reading that column from source
  row \<open>i\<close> gives and, under each target column, what reading it from the decoded
  target row \<open>i\<close> gives, or from an empty object past the end of the target rows. A
  read gives the row's own value, and for a name the row lacks the member of
  \<open>Object.prototype\<close> of that name, if there is one, else \<open>undefined\<close>.
\<close>

theorem iteration_select_pairs_with_terminal_source:
  assumes terminal: "finalData st = Some fd"
    and recorded: "find (\<lambda>r. iteration r = k) (iterationResults st) = Some result"
  shows "currentData (handleIterationSelect (Some k) st)
           = Some \<lparr>source = source fd, target = parseCSV (content result)\<rparr>
         \<and> finalData (handleIterationSelect (Some k) st) = Some fd
         \<and> length (gridRows \<lparr>source = source fd, target = parseCSV (content result)\<rparr>)
           = length (data (source fd))
         \<and> (\<forall>i<length (data (source fd)).
              (\<forall>col\<in>set (columns (source fd)).
                 (gridRows \<lparr>source = source fd, target = parseCSV (content result)\<rparr> ! i)
                   (''source_'' @ col)
                 = Some (getProp (data (source fd) ! i) col))
              \<and> (\<forall>col\<in>set (columns (parseCSV (content result))).
                   (gridRows \<lparr>source = source fd, target = parseCSV (content result)\<rparr> ! i)
                     (''target_'' @ col)
                   = Some (getProp
                       (if i < length (data (parseCSV (content result)))
                        then data (parseCSV (content result)) ! i else Map.empty)
                       col)))"
proof -
  let ?d = "\<lparr>source = source fd, target = parseCSV (content result)\<rparr>"
  have shown: "currentData (handleIterationSelect (Some k) st) = Some ?d"
    using terminal recorded by (simp add: handleIterationSelect_def Let_def)
  have kept: "finalData (handleIterationSelect (Some k) st) = Some fd"
    using terminal recorded by (simp add: handleIterationSelect_def Let_def)
  have len: "length (gridRows ?d) = length (data (source fd))"
    by (simp add: gridRows_length)
  have src: "(gridRows ?d ! i) (''source_'' @ col) = Some (getProp (data (source fd) ! i) col)"
    if i: "i < length (data (source fd))" and col: "col \<in> set (columns (source fd))"
    for i col
  proof -
    from i have "gridRows ?d ! i = gridRowAt ?d i (data (source fd) ! i)"
      by (simp add: gridRows_nth)
    moreover from col
    have "gridRowAt ?d i (data (source fd) ! i) (''source_'' @ col)
        = Some (getProp (data (source fd) ! i) col)"
      by (intro gridRowAt_source) simp
    ultimately show ?thesis by (simp only:)
  qed
  have tgt: "(gridRows ?d ! i) (''target_'' @ col)
        = Some (getProp
            (if i < length (data (parseCSV (content result)))
             then data (parseCSV (content result)) ! i else Map.empty)
            col)"
    if i: "i < length (data (source fd))"
      and col: "col \<in> set (columns (parseCSV (content result)))"
    for i col
  proof -
    from i have "gridRows ?d ! i = gridRowAt ?d i (data (source fd) ! i)"
      by (simp add: gridRows_nth)
    moreover from col
    have "gridRowAt ?d i (data (source fd) ! i) (''target_'' @ col)
        = Some (getProp
            (if i < length (data (target ?d)) then data (target ?d) ! i else Map.empty) col)"
      by (intro gridRowAt_target) simp
    ultimately show ?thesis by simp
  qed
  have rows: "\<forall>i<length (data (source fd)).
      (\<forall>col\<in>set (columns (source fd)).
         (gridRows ?d ! i) (''source_'' @ col) = Some (getProp (data (source fd) ! i) col))
      \<and> (\<forall>col\<in>set (columns (parseCSV (content result))).
           (gridRows ?d ! i) (''target_'' @ col)
           = Some (getProp
               (if i < length (data (parseCSV (content result)))
                then data (parseCSV (content result)) ! i else Map.empty)
               col))"
    by (intro allI impI conjI ballI) (rule src tgt; assumption)+
  show ?thesis
    by (rule conjI [OF shown conjI [OF kept conjI [OF len rows]]])
qed

theorem iteration_select_pairs_with_terminal_source_witness:
  "currentData (handleIterationSelect (Some 2)
      (fold applyEvent
         [IterationComplete 1 ''name\<newline>x'', IterationComplete 2 ''constructor\<newline>y'',
          IterationComplete 3 ''name\<newline>w'',
          Result \<lparr>source = \<lparr>columns = [''id''], data = [[''id'' \<mapsto> ''1''], [''id'' \<mapsto> ''2'']]\<rparr>,
                  target = \<lparr>columns = [''name''], data = [[''name'' \<mapsto> ''w'']]\<rparr>\<rparr>]
         runStart))
   = Some \<lparr>source = \<lparr>columns = [''id''], data = [[''id'' \<mapsto> ''1''], [''id'' \<mapsto> ''2'']]\<rparr>,
           target = parseCSV ''constructor\<newline>y''\<rparr>
   \<and> (gridRows \<lparr>source = \<lparr>columns = [''id''], data = [[''id'' \<mapsto> ''1''], [''id'' \<mapsto> ''2'']]\<rparr>,
                 target = parseCSV ''constructor\<newline>y''\<rparr> ! 1) ''source_id''
     = Some (Str ''2'')
   \<and> (gridRows \<lparr>source = \<lparr>columns = [''id''], data = [[''id'' \<mapsto> ''1''], [''id'' \<mapsto> ''2'']]\<rparr>,
                 target = parseCSV ''constructor\<newline>y''\<rparr> ! 1) ''target_constructor''
     = Some (Inherited ''constructor'')
   \<and> (gridRows \<lparr>source = \<lparr>columns = [''id''], data = [[''id'' \<mapsto> ''1''], [''id'' \<mapsto> ''2'']]\<rparr>,
                 target = parseCSV ''constructor\<newline>y''\<rparr> ! 0) ''target_constructor''
     = Some (Str ''y'')"
proof -
  let ?src = "\<lparr>columns = [''id''], data = [[''id'' \<mapsto> ''1''], [''id'' \<mapsto> ''2'']]\<rparr>"
  let ?fd = "\<lparr>source = ?src, target = \<lparr>columns = [''name''], data = [[''name'' \<mapsto> ''w'']]\<rparr>\<rparr>"
  let ?st = "fold applyEvent
         [IterationComplete 1 ''name\<newline>x'', IterationComplete 2 ''constructor\<newline>y'',
          IterationComplete 3 ''name\<newline>w'', Result ?fd] runStart"
  let ?result = "\<lparr>iteration = 2, content = ''constructor\<newline>y''\<rparr>"
  let ?d = "\<lparr>source = ?src, target = parseCSV ''constructor\<newline>y''\<rparr>"
  have terminal: "finalData ?st = Some ?fd"
    by (simp add: runStart_def)
  have recorded: "find (\<lambda>r. iteration r = 2) (iterationResults ?st) = Some ?result"
    by (simp add: runStart_def)
  note selected = iteration_select_pairs_with_terminal_source [OF terminal recorded]
  note rows = conjunct2 [OF conjunct2 [OF conjunct2 [OF selected]]]
  have cols: "''constructor'' \<in> set (columns (parseCSV (content ?result)))"
    by code_simp
  have cell: "getProp
      (if 1 < length (data (parseCSV (content ?result)))
       then data (parseCSV (content ?result)) ! 1 else Map.empty)
      ''constructor'' = Inherited ''constructor''"
    by code_simp
  have cell0: "getProp
      (if 0 < length (data (parseCSV (content ?result)))
       then data (parseCSV (content ?result)) ! 0 else Map.empty)
      ''constructor'' = Str ''y''"
    by code_simp
  have zero: "0 < length (data (source ?fd))" by simp
  have one: "1 < length (data (source ?fd))" and idcol: "''id'' \<in> set (columns (source ?fd))"
    by simp_all
  have shown: "currentData (handleIterationSelect (Some 2) ?st) = Some ?d"
    using conjunct1 [OF selected] by simp
  note at1 = rows [rule_format, OF one]
  have src: "(gridRows ?d ! 1) ''source_id'' = Some (Str ''2'')"
    using bspec [OF conjunct1 [OF at1] idcol] by (simp add: getProp_def)
  have tgt: "(gridRows ?d ! 1) ''target_constructor'' = Some (Inherited ''constructor'')"
    using bspec [OF conjunct2 [OF at1] cols] unfolding cell by simp
  have tgt0: "(gridRows ?d ! 0) ''target_constructor'' = Some (Str ''y'')"
    using bspec [OF conjunct2 [OF rows [rule_format, OF zero]] cols] unfolding cell0 by simp
  show ?thesis
    by (rule conjI [OF shown conjI [OF src conjI [OF tgt tgt0]]])
qed

end
